theory Spec2Isabelle
  imports Main "HOL-Library.Monad_Syntax"
begin

section \<open>The caches of CacheImpl.hpp\<close>

text \<open>
  The header declares an abstract class \<open>Cache<K, V>\<close> that stores the capacity, and
  four concrete classes: \<open>FILOCache\<close>, \<open>FIFOCache\<close>, \<open>LRUCache\<close> and \<open>LFUCache\<close>.
  Each of them keeps its entries in \<open>std::list\<close> objects and an index
  \<open>std::unordered_map\<close> from keys to list iterators. The model follows the version
  of the header with the four classes and the members \<open>m_capacity\<close>, \<open>m_list\<close>,
  \<open>m_hashmap\<close>, \<open>m_freqHashmap\<close> and \<open>m_minimalFreq\<close>; the other version in the
  repository has no \<open>FILOCache\<close> and, up to the names of the members, the same bodies
  for the three other classes. Line numbers refer to the version that is modelled.

  Conventions of the embedding:
  \<^item> a member function takes the object state and returns the new one;
  \<^item> the one exception of the source, \<open>std::invalid_argument("Key is not found!")\<close>,
    is the value \<open>Inl KeyNotFound\<close>; since the object survives the \<open>throw\<close>, \<open>get\<close>
    returns the outcome together with the state the object is left in;
  \<^item> where C++ leaves the behaviour undefined (dereferencing or erasing through an
    iterator that designates no node of the list, \<open>front()\<close>, \<open>back()\<close>,
    \<open>pop_front()\<close>, \<open>pop_back()\<close> on an empty list, the overflow of an \<open>int\<close>) the
    model returns \<open>None\<close>; the theorems below show that on a cache that was built by
    its constructor and used through its member functions this happens only when a
    frequency of the LFU cache overflows, which takes more than \<open>INT_MAX\<close> calls;
  \<^item> \<open>std::size_t\<close> values are natural numbers: the source only stores and compares
    them. The \<open>int\<close> frequencies of \<open>LFUCache\<close> are integers in the range of a 32-bit
    \<open>int\<close>; the increment that would leave the range is undefined behaviour, as in
    C++.
\<close>

datatype error = KeyNotFound

subsection \<open>\<open>std::list\<close> with node identities\<close>

text \<open>
  A \<open>std::list<T>\<close> is a sequence of nodes. An iterator is the address of a node and
  stays valid while other nodes are inserted or removed, which is what the caches rely
  on. The model tags every element with the address of its node; a new node gets an
  address that no node of the list has at that moment.
\<close>

type_synonym iterator = nat

type_synonym 'a stdlist = "(iterator \<times> 'a) list"

primrec new_node :: "'a stdlist \<Rightarrow> iterator" where
  "new_node [] = 0"
| "new_node (n # ns) = max (Suc (fst n)) (new_node ns)"

definition emplace_front :: "'a \<Rightarrow> 'a stdlist \<Rightarrow> 'a stdlist" where
  "emplace_front x l = (new_node l, x) # l"

definition emplace_back :: "'a \<Rightarrow> 'a stdlist \<Rightarrow> 'a stdlist" where
  "emplace_back x l = l @ [(new_node l, x)]"

text \<open>\<open>l.begin()\<close> and \<open>--l.end()\<close>, as used by the source right after an insertion:
  the iterator of the first and of the last node (none when the list is empty).\<close>

definition list_begin :: "'a stdlist \<Rightarrow> iterator option" where
  "list_begin l = (case l of [] \<Rightarrow> None | n # _ \<Rightarrow> Some (fst n))"

definition list_prev_end :: "'a stdlist \<Rightarrow> iterator option" where
  "list_prev_end l = (case rev l of [] \<Rightarrow> None | n # _ \<Rightarrow> Some (fst n))"

definition list_front :: "'a stdlist \<Rightarrow> 'a option" where
  "list_front l = (case l of [] \<Rightarrow> None | n # _ \<Rightarrow> Some (snd n))"

definition list_back :: "'a stdlist \<Rightarrow> 'a option" where
  "list_back l = (case rev l of [] \<Rightarrow> None | n # _ \<Rightarrow> Some (snd n))"

definition pop_front :: "'a stdlist \<Rightarrow> 'a stdlist option" where
  "pop_front l = (case l of [] \<Rightarrow> None | _ # ns \<Rightarrow> Some ns)"

definition pop_back :: "'a stdlist \<Rightarrow> 'a stdlist option" where
  "pop_back l = (case l of [] \<Rightarrow> None | _ # _ \<Rightarrow> Some (butlast l))"

text \<open>\<open>*it\<close>: the element of the node an iterator designates.\<close>

definition deref :: "iterator \<Rightarrow> 'a stdlist \<Rightarrow> 'a option" where
  "deref it l = map_of l it"

text \<open>\<open>l.erase(it)\<close>.\<close>

definition erase :: "iterator \<Rightarrow> 'a stdlist \<Rightarrow> 'a stdlist option" where
  "erase it l =
     (case deref it l of None \<Rightarrow> None
      | Some _ \<Rightarrow> Some (filter (\<lambda>n. fst n \<noteq> it) l))"

text \<open>\<open>it->second = value\<close> on a list of pairs: an assignment through the iterator.\<close>

definition assign_second :: "iterator \<Rightarrow> 'v \<Rightarrow> ('k \<times> 'v) stdlist \<Rightarrow> ('k \<times> 'v) stdlist option" where
  "assign_second it v l =
     (case deref it l of None \<Rightarrow> None
      | Some _ \<Rightarrow> Some (map (\<lambda>n. if fst n = it then (fst n, (fst (snd n), v)) else n) l))"

subsection \<open>The base class \<open>Cache\<close>\<close>

record Cache =
  m_capacity :: nat

definition getCapacity :: "'a Cache_scheme \<Rightarrow> nat" where
  "getCapacity c = m_capacity c"

definition setCapacity :: "nat \<Rightarrow> 'a Cache_scheme \<Rightarrow> 'a Cache_scheme" where
  "setCapacity capacity c = c\<lparr>m_capacity := capacity\<rparr>"

subsection \<open>\<open>FILOCache\<close>, \<open>FIFOCache\<close> and \<open>LRUCache\<close>\<close>

text \<open>
  The three classes declare the same two members, \<open>m_list\<close> (a list of key-value
  pairs) and \<open>m_hashmap\<close> (from a key to the iterator of its node), so one record
  serves for the three. \<open>m_hashmap.size()\<close> is the number of keys of the map.
\<close>

record ('k, 'v) ListCache = Cache +
  m_list :: "('k \<times> 'v) stdlist"
  m_hashmap :: "'k \<rightharpoonup> iterator"

definition hashmap_size :: "('k \<rightharpoonup> 'b) \<Rightarrow> nat" where
  "hashmap_size m = card (dom m)"

definition ListCache :: "nat \<Rightarrow> ('k, 'v) ListCache" where
  "ListCache capacity = \<lparr>m_capacity = capacity, m_list = [], m_hashmap = Map.empty\<rparr>"

definition FILOCache :: "nat \<Rightarrow> ('k, 'v) ListCache" where
  "FILOCache capacity = ListCache capacity"

definition FIFOCache :: "nat \<Rightarrow> ('k, 'v) ListCache" where
  "FIFOCache capacity = ListCache capacity"

definition LRUCache :: "nat \<Rightarrow> ('k, 'v) ListCache" where
  "LRUCache capacity = ListCache capacity"

text \<open>\<open>FILOCache::get\<close> and \<open>FIFOCache::get\<close> have the same body.\<close>

definition FILO_get :: "'k \<Rightarrow> ('k, 'v) ListCache \<Rightarrow> ((error + 'v) \<times> ('k, 'v) ListCache) option" where
  "FILO_get key s =
     (case m_hashmap s key of
        None \<Rightarrow> Some (Inl KeyNotFound, s)
      | Some iter \<Rightarrow> do {
          p \<leftarrow> deref iter (m_list s);
          Some (Inr (snd p), s)
        })"

definition FIFO_get :: "'k \<Rightarrow> ('k, 'v) ListCache \<Rightarrow> ((error + 'v) \<times> ('k, 'v) ListCache) option" where
  "FIFO_get key s =
     (case m_hashmap s key of
        None \<Rightarrow> Some (Inl KeyNotFound, s)
      | Some iter \<Rightarrow> do {
          p \<leftarrow> deref iter (m_list s);
          Some (Inr (snd p), s)
        })"

definition FILO_put :: "'k \<Rightarrow> 'v \<Rightarrow> ('k, 'v) ListCache \<Rightarrow> ('k, 'v) ListCache option" where
  "FILO_put key value s =
     (if getCapacity s = 0 then Some s
      else case m_hashmap s key of
        None \<Rightarrow> do {
          s1 \<leftarrow> (if hashmap_size (m_hashmap s) = getCapacity s
                 then do {
                   p \<leftarrow> list_back (m_list s);
                   l \<leftarrow> pop_back (m_list s);
                   Some (s\<lparr>m_list := l, m_hashmap := (m_hashmap s)(fst p := None)\<rparr>)
                 }
                 else Some s);
          let l = emplace_back (key, value) (m_list s1);
          it \<leftarrow> list_prev_end l;
          Some (s1\<lparr>m_list := l, m_hashmap := (m_hashmap s1)(key \<mapsto> it)\<rparr>)
        }
      | Some iter \<Rightarrow> do {
          l \<leftarrow> assign_second iter value (m_list s);
          Some (s\<lparr>m_list := l\<rparr>)
        })"

definition FIFO_put :: "'k \<Rightarrow> 'v \<Rightarrow> ('k, 'v) ListCache \<Rightarrow> ('k, 'v) ListCache option" where
  "FIFO_put key value s =
     (if getCapacity s = 0 then Some s
      else case m_hashmap s key of
        None \<Rightarrow> do {
          s1 \<leftarrow> (if hashmap_size (m_hashmap s) = getCapacity s
                 then do {
                   p \<leftarrow> list_front (m_list s);
                   l \<leftarrow> pop_front (m_list s);
                   Some (s\<lparr>m_list := l, m_hashmap := (m_hashmap s)(fst p := None)\<rparr>)
                 }
                 else Some s);
          let l = emplace_back (key, value) (m_list s1);
          it \<leftarrow> list_prev_end l;
          Some (s1\<lparr>m_list := l, m_hashmap := (m_hashmap s1)(key \<mapsto> it)\<rparr>)
        }
      | Some iter \<Rightarrow> do {
          l \<leftarrow> assign_second iter value (m_list s);
          Some (s\<lparr>m_list := l\<rparr>)
        })"

text \<open>\<open>clear()\<close> is the same in the three classes: both members are emptied, the
  capacity stays.\<close>

definition List_clear :: "('k, 'v) ListCache \<Rightarrow> ('k, 'v) ListCache" where
  "List_clear s = s\<lparr>m_list := [], m_hashmap := Map.empty\<rparr>"

definition LRU_get :: "'k \<Rightarrow> ('k, 'v) ListCache \<Rightarrow> ((error + 'v) \<times> ('k, 'v) ListCache) option" where
  "LRU_get key s =
     (case m_hashmap s key of
        None \<Rightarrow> Some (Inl KeyNotFound, s)
      | Some iter \<Rightarrow> do {
          p \<leftarrow> deref iter (m_list s);
          let l1 = emplace_front (key, snd p) (m_list s);
          l2 \<leftarrow> erase iter l1;
          it \<leftarrow> list_begin l2;
          let s' = s\<lparr>m_list := l2, m_hashmap := (m_hashmap s)(key \<mapsto> it)\<rparr>;
          b \<leftarrow> list_front (m_list s');
          Some (Inr (snd b), s')
        })"

definition LRU_put :: "'k \<Rightarrow> 'v \<Rightarrow> ('k, 'v) ListCache \<Rightarrow> ('k, 'v) ListCache option" where
  "LRU_put key value s =
     (if getCapacity s = 0 then Some s
      else case m_hashmap s key of
        None \<Rightarrow> do {
          s1 \<leftarrow> (if hashmap_size (m_hashmap s) = getCapacity s
                 then do {
                   p \<leftarrow> list_back (m_list s);
                   l \<leftarrow> pop_back (m_list s);
                   Some (s\<lparr>m_list := l, m_hashmap := (m_hashmap s)(fst p := None)\<rparr>)
                 }
                 else Some s);
          let l = emplace_front (key, value) (m_list s1);
          it \<leftarrow> list_begin l;
          Some (s1\<lparr>m_list := l, m_hashmap := (m_hashmap s1)(key \<mapsto> it)\<rparr>)
        }
      | Some iter \<Rightarrow> do {
          l1 \<leftarrow> erase iter (m_list s);
          let l2 = emplace_front (key, value) l1;
          it \<leftarrow> list_begin l2;
          Some (s\<lparr>m_list := l2, m_hashmap := (m_hashmap s)(key \<mapsto> it)\<rparr>)
        })"

subsection \<open>\<open>LFUCache\<close>\<close>

record ('k, 'v) Node =
  m_key :: 'k
  m_value :: 'v
  m_freq :: int

text \<open>
  \<open>m_freqHashmap\<close> maps a frequency to the list of the nodes with that frequency,
  and \<open>m_hashmap\<close> maps a key to an iterator into one of these lists (the field is
  \<open>m_hashmap_LFU\<close> here, since a field name belongs to one record). An iterator of
  the index is modelled as the pair of the frequency under which its list is stored
  and the address of the node inside that list.
\<close>

type_synonym bucket_iterator = "int \<times> iterator"

record ('k, 'v) LFUCache = Cache +
  m_minimalFreq :: int
  m_hashmap_LFU :: "'k \<rightharpoonup> bucket_iterator"
  m_freqHashmap :: "int \<rightharpoonup> ('k, 'v) Node stdlist"

definition LFUCache :: "nat \<Rightarrow> ('k, 'v) LFUCache" where
  "LFUCache capacity =
     \<lparr>m_capacity = capacity, m_minimalFreq = 0, m_hashmap_LFU = Map.empty,
      m_freqHashmap = Map.empty\<rparr>"

text \<open>\<open>m_freqHashmap[freq]\<close>: \<open>operator[]\<close> yields the list stored under \<open>freq\<close>, and
  an empty list, which it inserts, when there is none. Every statement of the source
  that uses it writes the list back or erases the key, as the model does.\<close>

definition bucket :: "(int \<rightharpoonup> 'a stdlist) \<Rightarrow> int \<Rightarrow> 'a stdlist" where
  "bucket m freq = (case m freq of None \<Rightarrow> [] | Some l \<Rightarrow> l)"

definition deref_bucket :: "bucket_iterator \<Rightarrow> (int \<rightharpoonup> 'a stdlist) \<Rightarrow> 'a option" where
  "deref_bucket it m = (case m (fst it) of None \<Rightarrow> None | Some l \<Rightarrow> deref (snd it) l)"

text \<open>
  \<open>m_freq\<close> and \<open>m_minimalFreq\<close> are C++ \<open>int\<close>s, 32 bits wide on the platforms the
  project names. The source only assigns 0 and 1 to them and increments them with
  \<open>++\<close>. Incrementing a signed integer that holds \<open>INT_MAX\<close> overflows, which C++
  leaves undefined: \<open>increment\<close> is \<open>++\<close> on an \<open>int\<close>, with no result there. All
  other values of the fields stay in the range of \<open>int\<close>.
\<close>

definition INT_MAX :: int where
  "INT_MAX = 2147483647"

definition increment :: "int \<Rightarrow> int option" where
  "increment i = (if i < INT_MAX then Some (i + 1) else None)"

text \<open>
  The block that \<open>get\<close> (lines 157 to 168) and the existing-key branch of \<open>put\<close>
  (lines 200 to 211) share word for word: the node is erased from the list of its
  frequency, the list is dropped when it became empty (and \<open>m_minimalFreq\<close> incremented
  when it was that frequency), the frequency is incremented, and a new node with the
  incremented frequency is put at the front of the next list. Erasing through an
  iterator of another list is undefined.
\<close>

definition LFU_promote ::
  "'k \<Rightarrow> 'v \<Rightarrow> bucket_iterator \<Rightarrow> int \<Rightarrow> ('k, 'v) LFUCache \<Rightarrow> ('k, 'v) LFUCache option" where
  "LFU_promote key value iter_in_list freq s = do {
     l \<leftarrow> (if fst iter_in_list = freq
            then erase (snd iter_in_list) (bucket (m_freqHashmap s) freq) else None);
     let s1 = s\<lparr>m_freqHashmap := (m_freqHashmap s)(freq \<mapsto> l)\<rparr>;
     s2 \<leftarrow> (if l = []
            then do {
              minimalFreq \<leftarrow> (if m_minimalFreq s1 = freq then increment (m_minimalFreq s1)
                              else Some (m_minimalFreq s1));
              Some (s1\<lparr>m_freqHashmap := (m_freqHashmap s1)(freq := None),
                      m_minimalFreq := minimalFreq\<rparr>)
            }
            else Some s1);
     freq' \<leftarrow> increment freq;
     let l' = emplace_front \<lparr>m_key = key, m_value = value, m_freq = freq'\<rparr>
                (bucket (m_freqHashmap s2) freq');
     let s3 = s2\<lparr>m_freqHashmap := (m_freqHashmap s2)(freq' \<mapsto> l')\<rparr>;
     it \<leftarrow> list_begin l';
     Some (s3\<lparr>m_hashmap_LFU := (m_hashmap_LFU s3)(key \<mapsto> (freq', it))\<rparr>)
   }"

definition LFU_get :: "'k \<Rightarrow> ('k, 'v) LFUCache \<Rightarrow> ((error + 'v) \<times> ('k, 'v) LFUCache) option" where
  "LFU_get key s =
     (case m_hashmap_LFU s key of
        None \<Rightarrow> Some (Inl KeyNotFound, s)
      | Some iter_in_list \<Rightarrow> do {
          n \<leftarrow> deref_bucket iter_in_list (m_freqHashmap s);
          let value = m_value n;
          let freq = m_freq n;
          s' \<leftarrow> LFU_promote key value iter_in_list freq s;
          Some (Inr value, s')
        })"

definition LFU_put :: "'k \<Rightarrow> 'v \<Rightarrow> ('k, 'v) LFUCache \<Rightarrow> ('k, 'v) LFUCache option" where
  "LFU_put key value s =
     (if getCapacity s = 0 then Some s
      else case m_hashmap_LFU s key of
        None \<Rightarrow> do {
          s1 \<leftarrow> (if hashmap_size (m_hashmap_LFU s) = getCapacity s
                 then do {
                   iter_to_lfu_item \<leftarrow> list_back (bucket (m_freqHashmap s) (m_minimalFreq s));
                   l \<leftarrow> pop_back (bucket (m_freqHashmap s) (m_minimalFreq s));
                   Some (s\<lparr>m_hashmap_LFU := (m_hashmap_LFU s)(m_key iter_to_lfu_item := None),
                           m_freqHashmap :=
                             (if l = [] then (m_freqHashmap s)(m_minimalFreq s := None)
                              else (m_freqHashmap s)(m_minimalFreq s \<mapsto> l))\<rparr>)
                 }
                 else Some s);
          let s2 = s1\<lparr>m_minimalFreq := 1\<rparr>;
          let l = emplace_front \<lparr>m_key = key, m_value = value, m_freq = m_minimalFreq s2\<rparr>
                    (bucket (m_freqHashmap s2) (m_minimalFreq s2));
          let s3 = s2\<lparr>m_freqHashmap := (m_freqHashmap s2)(m_minimalFreq s2 \<mapsto> l)\<rparr>;
          it \<leftarrow> list_begin l;
          Some (s3\<lparr>m_hashmap_LFU := (m_hashmap_LFU s3)(key \<mapsto> (m_minimalFreq s3, it))\<rparr>)
        }
      | Some iter_in_list \<Rightarrow> do {
          n \<leftarrow> deref_bucket iter_in_list (m_freqHashmap s);
          let freq = m_freq n;
          LFU_promote key value iter_in_list freq s
        })"

definition LFU_clear :: "('k, 'v) LFUCache \<Rightarrow> ('k, 'v) LFUCache" where
  "LFU_clear s = s\<lparr>m_minimalFreq := 0, m_hashmap_LFU := Map.empty, m_freqHashmap := Map.empty\<rparr>"

subsection \<open>The interface \<open>Cache<K, V>\<close>: dynamic dispatch\<close>

text \<open>
  Client code holds a \<open>Cache<K, V>\<close> and calls the virtual functions \<open>get\<close>, \<open>put\<close> and
  \<open>clear\<close>; which body runs depends on the class of the object. The datatype below is
  the object together with its class.
\<close>

datatype ('k, 'v) cache =
  FILO "('k, 'v) ListCache"
| FIFO "('k, 'v) ListCache"
| LRU "('k, 'v) ListCache"
| LFU "('k, 'v) LFUCache"

datatype policy = FILO_policy | FIFO_policy | LRU_policy | LFU_policy

fun construct :: "policy \<Rightarrow> nat \<Rightarrow> ('k, 'v) cache" where
  "construct FILO_policy capacity = FILO (FILOCache capacity)"
| "construct FIFO_policy capacity = FIFO (FIFOCache capacity)"
| "construct LRU_policy capacity = LRU (LRUCache capacity)"
| "construct LFU_policy capacity = LFU (LFUCache capacity)"

fun capacity_of :: "('k, 'v) cache \<Rightarrow> nat" where
  "capacity_of (FILO s) = getCapacity s"
| "capacity_of (FIFO s) = getCapacity s"
| "capacity_of (LRU s) = getCapacity s"
| "capacity_of (LFU s) = getCapacity s"

fun set_capacity :: "nat \<Rightarrow> ('k, 'v) cache \<Rightarrow> ('k, 'v) cache" where
  "set_capacity n (FILO s) = FILO (setCapacity n s)"
| "set_capacity n (FIFO s) = FIFO (setCapacity n s)"
| "set_capacity n (LRU s) = LRU (setCapacity n s)"
| "set_capacity n (LFU s) = LFU (setCapacity n s)"

fun get :: "'k \<Rightarrow> ('k, 'v) cache \<Rightarrow> ((error + 'v) \<times> ('k, 'v) cache) option" where
  "get key (FILO s) = map_option (apsnd FILO) (FILO_get key s)"
| "get key (FIFO s) = map_option (apsnd FIFO) (FIFO_get key s)"
| "get key (LRU s) = map_option (apsnd LRU) (LRU_get key s)"
| "get key (LFU s) = map_option (apsnd LFU) (LFU_get key s)"

fun put :: "'k \<Rightarrow> 'v \<Rightarrow> ('k, 'v) cache \<Rightarrow> ('k, 'v) cache option" where
  "put key value (FILO s) = map_option FILO (FILO_put key value s)"
| "put key value (FIFO s) = map_option FIFO (FIFO_put key value s)"
| "put key value (LRU s) = map_option LRU (LRU_put key value s)"
| "put key value (LFU s) = map_option LFU (LFU_put key value s)"

fun clear :: "('k, 'v) cache \<Rightarrow> ('k, 'v) cache" where
  "clear (FILO s) = FILO (List_clear s)"
| "clear (FIFO s) = FIFO (List_clear s)"
| "clear (LRU s) = LRU (List_clear s)"
| "clear (LFU s) = LFU (LFU_clear s)"

text \<open>The set of keys of the index and its size, the observable \<open>size\<close> of a cache.\<close>

fun keys_of :: "('k, 'v) cache \<Rightarrow> 'k set" where
  "keys_of (FILO s) = dom (m_hashmap s)"
| "keys_of (FIFO s) = dom (m_hashmap s)"
| "keys_of (LRU s) = dom (m_hashmap s)"
| "keys_of (LFU s) = dom (m_hashmap_LFU s)"

fun size_of :: "('k, 'v) cache \<Rightarrow> nat" where
  "size_of (FILO s) = hashmap_size (m_hashmap s)"
| "size_of (FIFO s) = hashmap_size (m_hashmap s)"
| "size_of (LRU s) = hashmap_size (m_hashmap s)"
| "size_of (LFU s) = hashmap_size (m_hashmap_LFU s)"

subsection \<open>Sequences of calls\<close>

text \<open>
  A client program is a sequence of calls on one cache. \<open>run\<close> executes it and returns
  the outcomes of the \<open>get\<close> calls, in order, and the final cache. A \<open>get\<close> that throws
  is caught by the client (as the tests do with \<open>REQUIRE_THROWS_AS\<close>) and the program
  goes on with the cache as the call left it.
\<close>

datatype ('k, 'v) call = Get 'k | Put 'k 'v | Clear | SetCapacity nat

fun run :: "('k, 'v) call list \<Rightarrow> ('k, 'v) cache \<Rightarrow> ((error + 'v) list \<times> ('k, 'v) cache) option" where
  "run [] c = Some ([], c)"
| "run (Get key # calls) c = do {
     (r, c') \<leftarrow> get key c;
     (rs, c'') \<leftarrow> run calls c';
     Some (r # rs, c'')
   }"
| "run (Put key value # calls) c = do {
     c' \<leftarrow> put key value c;
     run calls c'
   }"
| "run (Clear # calls) c = run calls (clear c)"
| "run (SetCapacity n # calls) c = run calls (set_capacity n c)"

section \<open>Representation invariants\<close>

text \<open>
  The sequence of key-value pairs of a list cache, front first: what the list holds
  once the node addresses are forgotten.
\<close>

definition entries :: "('k, 'v) ListCache \<Rightarrow> ('k \<times> 'v) list" where
  "entries s = map snd (m_list s)"

text \<open>
  A list and an index fit together when the nodes have distinct addresses and the
  index maps a key to an iterator exactly when that iterator designates a node with
  this key.
\<close>

definition wfL :: "('k \<times> 'v) stdlist \<Rightarrow> ('k \<rightharpoonup> iterator) \<Rightarrow> bool" where
  "wfL l h \<longleftrightarrow>
     distinct (map fst l) \<and> (\<forall>key it. h key = Some it \<longleftrightarrow> (\<exists>v. (it, key, v) \<in> set l))"

definition wf_List :: "('k, 'v) ListCache \<Rightarrow> bool" where
  "wf_List s = wfL (m_list s) (m_hashmap s)"

text \<open>
  For the LFU cache: \<open>node_at fm f a n\<close> says that the list stored under frequency
  \<open>f\<close> has the node \<open>n\<close> at address \<open>a\<close>. The frequency map and the index fit together
  when the index is finite, every stored list is non-empty, has distinct addresses and
  a frequency of at least 1, every node carries the frequency of its list, and the
  index maps a key to an iterator exactly when it designates a node with this key.
\<close>

definition node_at :: "(int \<rightharpoonup> 'a stdlist) \<Rightarrow> int \<Rightarrow> iterator \<Rightarrow> 'a \<Rightarrow> bool" where
  "node_at fm f a n \<longleftrightarrow> (\<exists>l. fm f = Some l \<and> (a, n) \<in> set l)"

definition wfF :: "(int \<rightharpoonup> ('k, 'v) Node stdlist) \<Rightarrow> ('k \<rightharpoonup> bucket_iterator) \<Rightarrow> bool" where
  "wfF fm h \<longleftrightarrow>
     finite (dom h) \<and>
     (\<forall>f l. fm f = Some l \<longrightarrow> l \<noteq> [] \<and> distinct (map fst l) \<and> 1 \<le> f) \<and>
     (\<forall>f a n. node_at fm f a n \<longrightarrow> m_freq n = f) \<and>
     (\<forall>k f a. h k = Some (f, a) \<longleftrightarrow> (\<exists>n. node_at fm f a n \<and> m_key n = k))"

text \<open>\<open>m_minimalFreq\<close> is the least frequency of the frequency map, unless the cache
  is empty.\<close>

definition min_ok :: "(int \<rightharpoonup> 'a) \<Rightarrow> ('k \<rightharpoonup> 'b) \<Rightarrow> int \<Rightarrow> bool" where
  "min_ok fm h mf \<longleftrightarrow> (h \<noteq> Map.empty \<longrightarrow> mf \<in> dom fm \<and> (\<forall>f \<in> dom fm. mf \<le> f))"

definition wf_LFU :: "('k, 'v) LFUCache \<Rightarrow> bool" where
  "wf_LFU s \<longleftrightarrow>
     wfF (m_freqHashmap s) (m_hashmap_LFU s) \<and>
     min_ok (m_freqHashmap s) (m_hashmap_LFU s) (m_minimalFreq s)"

fun wf_cache :: "('k, 'v) cache \<Rightarrow> bool" where
  "wf_cache (FILO s) = wf_List s"
| "wf_cache (FIFO s) = wf_List s"
| "wf_cache (LRU s) = wf_List s"
| "wf_cache (LFU s) = wf_LFU s"

fun policy_of :: "('k, 'v) cache \<Rightarrow> policy" where
  "policy_of (FILO s) = FILO_policy"
| "policy_of (FIFO s) = FIFO_policy"
| "policy_of (LRU s) = LRU_policy"
| "policy_of (LFU s) = LFU_policy"

text \<open>
  The frequency that the LFU cache keeps for a key: the \<open>m_freq\<close> field of the node
  that the index designates, and 0 for a key that is not in the index. The other
  caches keep no frequencies.
\<close>

definition LFU_frequency :: "'k \<Rightarrow> ('k, 'v) LFUCache \<Rightarrow> int" where
  "LFU_frequency key s =
     (case m_hashmap_LFU s key of
        None \<Rightarrow> 0
      | Some it \<Rightarrow> (case deref_bucket it (m_freqHashmap s) of None \<Rightarrow> 0 | Some n \<Rightarrow> m_freq n))"

fun frequency_of :: "'k \<Rightarrow> ('k, 'v) cache \<Rightarrow> int" where
  "frequency_of key (FILO s) = 0"
| "frequency_of key (FIFO s) = 0"
| "frequency_of key (LRU s) = 0"
| "frequency_of key (LFU s) = LFU_frequency key s"

text \<open>No frequency of the frequency map is above \<open>b\<close>.\<close>

fun freq_bounded :: "int \<Rightarrow> ('k, 'v) cache \<Rightarrow> bool" where
  "freq_bounded b (FILO s) = True"
| "freq_bounded b (FIFO s) = True"
| "freq_bounded b (LRU s) = True"
| "freq_bounded b (LFU s) = (\<forall>f \<in> dom (m_freqHashmap s). f \<le> b)"

text \<open>The LFU cache of capacity 1 that holds one key, with a given frequency, in a node
  at address 0: the state that a put of the key and then gets of the key lead to.\<close>

definition LFU_single :: "'k \<Rightarrow> 'v \<Rightarrow> int \<Rightarrow> ('k, 'v) LFUCache" where
  "LFU_single key val f =
     \<lparr>m_capacity = 1, m_minimalFreq = f, m_hashmap_LFU = [key \<mapsto> (f, 0)],
      m_freqHashmap = [f \<mapsto> [(0, \<lparr>m_key = key, m_value = val, m_freq = f\<rparr>)]]\<rparr>"

section \<open>The list primitives\<close>

lemma new_node_greater: "n \<in> set l \<Longrightarrow> fst n < new_node l"
  by (induction l) auto

lemma new_node_fresh: "new_node l \<notin> fst ` set l"
  using new_node_greater by fastforce

lemma deref_Some: "distinct (map fst l) \<Longrightarrow> (it, x) \<in> set l \<Longrightarrow> deref it l = Some x"
  by (simp add: deref_def)

lemma deref_SomeD: "deref it l = Some x \<Longrightarrow> (it, x) \<in> set l"
  by (simp add: deref_def map_of_SomeD)

lemma wfL_empty: "wfL [] Map.empty"
  by (simp add: wfL_def)

lemma wfL_distinct: "wfL l h \<Longrightarrow> distinct (map fst l)"
  by (simp add: wfL_def)

lemma wfL_index: "wfL l h \<Longrightarrow> (h key = Some it) = (\<exists>v. (it, key, v) \<in> set l)"
  by (simp add: wfL_def)

lemma wfL_same_key:
  assumes "wfL l h" "(a, k, v) \<in> set l" "(a', k, v') \<in> set l"
  shows "a' = a \<and> v' = v"
proof -
  from assms have "h k = Some a" "h k = Some a'" by (auto simp: wfL_index)
  then have "a' = a" by simp
  with assms show ?thesis
    using eq_key_imp_eq_value [OF wfL_distinct [OF assms(1)]] by fastforce
qed

lemma wfL_distinct_keys: 
  assumes "wfL l h" shows "distinct (map fst (map snd l))"
proof -
  have d: "distinct l" using wfL_distinct [OF assms] by (simp add: distinct_map)
  have "inj_on (\<lambda>n. fst (snd n)) (set l)"
  proof (rule inj_onI)
    fix n n' assume "n \<in> set l" "n' \<in> set l" "fst (snd n) = fst (snd n')"
    then show "n = n'" using wfL_same_key [OF assms, of "fst n" "fst (snd n)" "snd (snd n)" "fst n'" "snd (snd n')"]
      by (metis prod.collapse)
  qed
  with d show ?thesis by (simp add: distinct_map comp_def)
qed

lemma wfL_dom: "wfL l h \<Longrightarrow> dom h = fst ` set (map snd l)"
  unfolding wfL_def by (force simp: dom_def image_iff)

lemma wfL_size: assumes "wfL l h" shows "hashmap_size h = length l"
proof -
  have "card (dom h) = card (set (map fst (map snd l)))" using wfL_dom [OF assms] by (simp add: image_image)
  also have "\<dots> = length (map fst (map snd l))" using wfL_distinct_keys [OF assms] by (rule distinct_card)
  finally show ?thesis by (simp add: hashmap_size_def)
qed

lemma wfL_finite: "wfL l h \<Longrightarrow> finite (dom h)"
  by (simp add: wfL_dom)

lemma wfL_lookup_None: "wfL l h \<Longrightarrow> h k = None \<Longrightarrow> map_of (map snd l) k = None"
  using wfL_dom [of l h] by (metis domIff map_of_eq_None_iff)

lemma wfL_lookup_Some:
  assumes "wfL l h" "h k = Some a"
  shows "\<exists>v. deref a l = Some (k, v) \<and> map_of (map snd l) k = Some v"
proof -
  from assms obtain v where v: "(a, k, v) \<in> set l" by (auto simp: wfL_index)
  then have "deref a l = Some (k, v)" using wfL_distinct [OF assms(1)] by (simp add: deref_Some)
  moreover have "(k, v) \<in> set (map snd l)" using v by force
  then have "map_of (map snd l) k = Some v" using wfL_distinct_keys [OF assms(1)] by simp
  ultimately show ?thesis by blast
qed

lemma wfL_cons:
  assumes "wfL l h" "a \<notin> fst ` set l" "h k = None"
  shows "wfL ((a, k, v) # l) (h(k \<mapsto> a))"
proof -
  have "\<And>it v'. (it, k, v') \<notin> set l" using assms(3) wfL_index [OF assms(1), of k] by fastforce
  then show ?thesis using assms unfolding wfL_def by (auto simp: image_iff)
qed

lemma wfL_snoc:
  assumes "wfL l h" "a \<notin> fst ` set l" "h k = None"
  shows "wfL (l @ [(a, k, v)]) (h(k \<mapsto> a))"
proof -
  have "\<And>it v'. (it, k, v') \<notin> set l" using assms(3) wfL_index [OF assms(1), of k] by fastforce
  then show ?thesis using assms unfolding wfL_def by (auto simp: image_iff)
qed

lemma wfL_tl:
  assumes "wfL (n # l) h"
  shows "wfL l (h(fst (snd n) := None))"
proof -
  obtain a k v where n: "n = (a, k, v)" by (cases n) auto
  have "\<And>a' v'. (a', k, v') \<notin> set l"
    using wfL_same_key [OF assms, of a k v] wfL_distinct [OF assms] unfolding n by force
  then show ?thesis using assms unfolding wfL_def n by auto
qed

lemma wfL_butlast:
  assumes "wfL (l @ [n]) h"
  shows "wfL l (h(fst (snd n) := None))"
proof -
  obtain a k v where n: "n = (a, k, v)" by (cases n) auto
  have "\<And>a' v'. (a', k, v') \<notin> set l"
    using wfL_same_key [OF assms, of a k v] wfL_distinct [OF assms] unfolding n by force
  then show ?thesis using assms unfolding wfL_def n by auto
qed

lemma wfL_erase:
  assumes "wfL l h" "h k = Some a"
  shows "wfL (filter (\<lambda>n. fst n \<noteq> a) l) (h(k := None))"
proof -
  from assms obtain v where v: "(a, k, v) \<in> set l" by (auto simp: wfL_index)
  have "\<And>a' v'. (a', k, v') \<in> set l \<Longrightarrow> a' = a"
    using wfL_same_key [OF assms(1) v] by blast
  moreover have "\<And>k' v'. (a, k', v') \<in> set l \<Longrightarrow> k' = k"
    using eq_key_imp_eq_value [OF wfL_distinct [OF assms(1)] v] by blast
  ultimately show ?thesis using assms(1) unfolding wfL_def by (auto simp: distinct_map_filter)
qed

lemma wfL_erase_entries:
  assumes "wfL l h" "h k = Some a"
  shows "map snd (filter (\<lambda>n. fst n \<noteq> a) l) = filter (\<lambda>p. fst p \<noteq> k) (map snd l)"
proof -
  from assms obtain v where v: "(a, k, v) \<in> set l" by (auto simp: wfL_index)
  have "\<And>n. n \<in> set l \<Longrightarrow> (fst n \<noteq> a) = (fst (snd n) \<noteq> k)"
    using wfL_same_key [OF assms(1) v] eq_key_imp_eq_value [OF wfL_distinct [OF assms(1)] v]
    by (metis prod.collapse fst_conv)
  then show ?thesis by (simp add: filter_map comp_def cong: filter_cong)
qed

lemma wfL_assign:
  assumes "wfL l h" 
  shows "wfL (map (\<lambda>n. if fst n = a then (fst n, (fst (snd n), v)) else n) l) h"
proof -
  define f :: "iterator \<times> 'a \<times> 'b \<Rightarrow> iterator \<times> 'a \<times> 'b"
    where "f = (\<lambda>n. if fst n = a then (fst n, (fst (snd n), v)) else n)"
  have "map fst (map f l) = map fst l"
    by (induction l) (auto simp: f_def)
  then have "distinct (map fst (map f l))" using wfL_distinct [OF assms] by (simp only:)
  moreover have "(\<exists>v'. (it, key, v') \<in> set (map f l)) = (\<exists>v'. (it, key, v') \<in> set l)" for it key
    by (induction l) (auto simp: f_def)
  ultimately have "wfL (map f l) h" using assms unfolding wfL_def by blast
  then show ?thesis by (simp only: f_def)
qed

lemma wfL_assign_entries:
  assumes "wfL l h" "h k = Some a"
  shows "map snd (map (\<lambda>n. if fst n = a then (fst n, (fst (snd n), v)) else n) l)
         = map (\<lambda>p. if fst p = k then (fst p, v) else p) (map snd l)"
proof -
  from assms obtain v where v: "(a, k, v) \<in> set l" by (auto simp: wfL_index)
  have "\<And>n. n \<in> set l \<Longrightarrow> (fst n = a) = (fst (snd n) = k)"
    using wfL_same_key [OF assms(1) v] eq_key_imp_eq_value [OF wfL_distinct [OF assms(1)] v]
    by (metis prod.collapse fst_conv)
  then show ?thesis by simp
qed


section \<open>The list caches preserve their invariant\<close>

lemma list_prev_end_snoc [simp]: "list_prev_end (l @ [n]) = Some (fst n)"
  by (simp add: list_prev_end_def)

lemma list_begin_Cons [simp]: "list_begin (n # l) = Some (fst n)"
  by (simp add: list_begin_def)

lemma list_front_Cons [simp]: "list_front (n # l) = Some (snd n)"
  by (simp add: list_front_def)

lemma list_back_snoc [simp]: "list_back (l @ [n]) = Some (snd n)"
  by (simp add: list_back_def)

lemma pop_front_Cons [simp]: "pop_front (n # l) = Some l"
  by (simp add: pop_front_def)

lemma pop_back_snoc [simp]: "pop_back (l @ [n]) = Some l"
  by (cases l) (simp_all add: pop_back_def)

lemma wf_List_nonempty:
  assumes "wf_List s" "hashmap_size (m_hashmap s) \<noteq> 0"
  shows "m_list s \<noteq> []"
  using assms wfL_size [of "m_list s" "m_hashmap s"] by (auto simp: wf_List_def)

lemma wf_List_size: "wf_List s \<Longrightarrow> hashmap_size (m_hashmap s) = length (entries s)"
  by (simp add: wf_List_def entries_def wfL_size)

lemma wf_List_keys: "wf_List s \<Longrightarrow> dom (m_hashmap s) = fst ` set (entries s)"
  by (simp add: wf_List_def entries_def wfL_dom)

lemma wf_ListCache: "wf_List (ListCache n)"
  by (simp add: wf_List_def ListCache_def wfL_empty)

lemma wf_List_clear: "wf_List (List_clear s)"
  by (simp add: wf_List_def List_clear_def wfL_empty)

lemma wf_List_setCapacity: "wf_List (setCapacity n s) = wf_List s"
  by (simp add: wf_List_def setCapacity_def)

text \<open>What \<open>get\<close> of the FILO and FIFO caches returns.\<close>

lemma FIFO_get_absent: "m_hashmap s key = None \<Longrightarrow> FIFO_get key s = Some (Inl KeyNotFound, s)"
  by (simp add: FIFO_get_def)

lemma FIFO_get_present:
  assumes "wf_List s" "m_hashmap s key = Some it"
  shows "\<exists>v. map_of (entries s) key = Some v \<and> FIFO_get key s = Some (Inr v, s)"
  using wfL_lookup_Some [of "m_list s" "m_hashmap s" key it] assms
  by (auto simp: wf_List_def FIFO_get_def entries_def)

lemma FILO_get_eq: "FILO_get = FIFO_get"
  by (intro ext) (simp add: FILO_get_def FIFO_get_def)

text \<open>The three branches that the \<open>put\<close> functions share up to the end of the list
  they use.\<close>

lemma FIFO_put_zero: "m_capacity s = 0 \<Longrightarrow> FIFO_put key value s = Some s"
  by (simp add: FIFO_put_def getCapacity_def)

lemma FIFO_put_existing:
  assumes "wf_List s" "m_capacity s \<noteq> 0" "m_hashmap s key = Some it"
  shows "\<exists>s'. FIFO_put key value s = Some s' \<and> wf_List s' \<and> m_capacity s' = m_capacity s
           \<and> m_hashmap s' = m_hashmap s
           \<and> entries s' = map (\<lambda>p. if fst p = key then (fst p, value) else p) (entries s)"
proof -
  from assms obtain v where "deref it (m_list s) = Some (key, v)"
    using wfL_lookup_Some [of "m_list s" "m_hashmap s" key it] by (auto simp: wf_List_def)
  then have "FIFO_put key value s =
      Some (s\<lparr>m_list := map (\<lambda>n. if fst n = it then (fst n, (fst (snd n), value)) else n) (m_list s)\<rparr>)"
    using assms by (simp add: FIFO_put_def getCapacity_def assign_second_def)
  then show ?thesis using assms wfL_assign [of "m_list s" "m_hashmap s" it "value"]
      wfL_assign_entries [of "m_list s" "m_hashmap s" key it "value"]
    by (simp add: wf_List_def entries_def)
qed

lemma FIFO_put_new_room:
  assumes "wf_List s" "m_capacity s \<noteq> 0" "m_hashmap s key = None"
    "hashmap_size (m_hashmap s) \<noteq> m_capacity s"
  shows "\<exists>s'. FIFO_put key value s = Some s' \<and> wf_List s' \<and> m_capacity s' = m_capacity s
           \<and> entries s' = entries s @ [(key, value)]"
proof -
  have "FIFO_put key value s =
      Some (s\<lparr>m_list := m_list s @ [(new_node (m_list s), key, value)],
              m_hashmap := (m_hashmap s)(key \<mapsto> new_node (m_list s))\<rparr>)"
    using assms by (simp add: FIFO_put_def getCapacity_def emplace_back_def)
  then show ?thesis using assms wfL_snoc [of "m_list s" "m_hashmap s" "new_node (m_list s)" key "value"]
      new_node_fresh [of "m_list s"]
    by (simp add: wf_List_def entries_def)
qed

lemma FIFO_put_new_full:
  assumes "wf_List s" "m_capacity s \<noteq> 0" "m_hashmap s key = None"
    "hashmap_size (m_hashmap s) = m_capacity s"
  shows "\<exists>s'. FIFO_put key value s = Some s' \<and> wf_List s' \<and> m_capacity s' = m_capacity s
           \<and> entries s \<noteq> [] \<and> entries s' = tl (entries s) @ [(key, value)]"
proof -
  from assms obtain n l where l: "m_list s = n # l"
    using wf_List_nonempty [of s] by (cases "m_list s") auto
  have wf1: "wfL l ((m_hashmap s)(fst (snd n) := None))"
    using assms(1) wfL_tl [of n l "m_hashmap s"] by (simp add: wf_List_def l)
  have "FIFO_put key value s =
      Some (s\<lparr>m_list := l @ [(new_node l, key, value)],
              m_hashmap := (m_hashmap s)(fst (snd n) := None, key \<mapsto> new_node l)\<rparr>)"
    using assms l by (simp add: FIFO_put_def getCapacity_def emplace_back_def)
  then show ?thesis 
    using assms l wfL_snoc [OF wf1, of "new_node l" key "value"] new_node_fresh [of l]
    by (simp add: wf_List_def entries_def)
qed


lemma FILO_put_zero: "m_capacity s = 0 \<Longrightarrow> FILO_put key val s = Some s"
  by (simp add: FILO_put_def getCapacity_def)

lemma FILO_put_existing:
  assumes "wf_List s" "m_capacity s \<noteq> 0" "m_hashmap s key = Some it"
  shows "\<exists>s'. FILO_put key val s = Some s' \<and> wf_List s' \<and> m_capacity s' = m_capacity s
           \<and> m_hashmap s' = m_hashmap s
           \<and> entries s' = map (\<lambda>p. if fst p = key then (fst p, val) else p) (entries s)"
proof -
  have "FILO_put key val s = FIFO_put key val s"
    using assms by (simp add: FILO_put_def FIFO_put_def)
  then show ?thesis using FIFO_put_existing [OF assms] by simp
qed

lemma FILO_put_new_room:
  assumes "wf_List s" "m_capacity s \<noteq> 0" "m_hashmap s key = None"
    "hashmap_size (m_hashmap s) \<noteq> m_capacity s"
  shows "\<exists>s'. FILO_put key val s = Some s' \<and> wf_List s' \<and> m_capacity s' = m_capacity s
           \<and> entries s' = entries s @ [(key, val)]"
proof -
  have "FILO_put key val s = FIFO_put key val s"
    using assms by (simp add: FILO_put_def FIFO_put_def getCapacity_def)
  then show ?thesis using FIFO_put_new_room [OF assms] by simp
qed

lemma FILO_put_new_full:
  assumes "wf_List s" "m_capacity s \<noteq> 0" "m_hashmap s key = None"
    "hashmap_size (m_hashmap s) = m_capacity s"
  shows "\<exists>s'. FILO_put key val s = Some s' \<and> wf_List s' \<and> m_capacity s' = m_capacity s
           \<and> entries s \<noteq> [] \<and> entries s' = butlast (entries s) @ [(key, val)]"
proof -
  from assms obtain l n where l: "m_list s = l @ [n]"
    using wf_List_nonempty [of s] by (cases "m_list s" rule: rev_cases) auto
  have wf1: "wfL l ((m_hashmap s)(fst (snd n) := None))"
    using assms(1) wfL_butlast [of l n "m_hashmap s"] by (simp add: wf_List_def l)
  have "FILO_put key val s =
      Some (s\<lparr>m_list := l @ [(new_node l, key, val)],
              m_hashmap := (m_hashmap s)(fst (snd n) := None, key \<mapsto> new_node l)\<rparr>)"
    using assms l by (simp add: FILO_put_def getCapacity_def emplace_back_def)
  then show ?thesis 
    using assms l wfL_snoc [OF wf1, of "new_node l" key val] new_node_fresh [of l]
    by (simp add: wf_List_def entries_def butlast_append)
qed

text \<open>\<open>LRUCache\<close>.\<close>

lemma LRU_get_absent: "m_hashmap s key = None \<Longrightarrow> LRU_get key s = Some (Inl KeyNotFound, s)"
  by (simp add: LRU_get_def)

lemma LRU_get_present:
  assumes "wf_List s" "m_hashmap s key = Some it"
  shows "\<exists>v s'. map_of (entries s) key = Some v \<and> LRU_get key s = Some (Inr v, s')
           \<and> wf_List s' \<and> m_capacity s' = m_capacity s
           \<and> entries s' = (key, v) # filter (\<lambda>p. fst p \<noteq> key) (entries s)"
proof -
  let ?l = "m_list s" and ?h = "m_hashmap s"
  have wf: "wfL ?l ?h" using assms by (simp add: wf_List_def)
  from wfL_lookup_Some [OF wf assms(2)] obtain v
    where v: "deref it ?l = Some (key, v)" "map_of (entries s) key = Some v"
    by (auto simp: entries_def)
  have ne: "it \<noteq> new_node ?l"
    using deref_SomeD [OF v(1)] new_node_greater [of "(it, key, v)" ?l] by auto
  let ?l' = "(new_node ?l, key, v) # filter (\<lambda>n. fst n \<noteq> it) ?l"
  have "erase it ((new_node ?l, key, v) # ?l) = Some ?l'"
    using v(1) ne by (simp add: erase_def deref_def)
  then have get: "LRU_get key s = Some (Inr v, s\<lparr>m_list := ?l', m_hashmap := ?h(key \<mapsto> new_node ?l)\<rparr>)"
    using assms(2) v(1) by (simp add: LRU_get_def emplace_front_def)
  have "new_node ?l \<notin> fst ` set (filter (\<lambda>n. fst n \<noteq> it) ?l)"
    using new_node_fresh [of ?l] by auto
  then have "wfL ?l' ((?h(key := None))(key \<mapsto> new_node ?l))"
    using wfL_cons [OF wfL_erase [OF wf assms(2)], of "new_node ?l" key v] by simp
  then have "wfL ?l' (?h(key \<mapsto> new_node ?l))" by simp
  then show ?thesis using get v(2) wfL_erase_entries [OF wf assms(2)]
    by (simp add: wf_List_def entries_def)
qed

lemma LRU_put_zero: "m_capacity s = 0 \<Longrightarrow> LRU_put key val s = Some s"
  by (simp add: LRU_put_def getCapacity_def)

lemma LRU_put_existing:
  assumes "wf_List s" "m_capacity s \<noteq> 0" "m_hashmap s key = Some it"
  shows "\<exists>s'. LRU_put key val s = Some s' \<and> wf_List s' \<and> m_capacity s' = m_capacity s
           \<and> dom (m_hashmap s') = dom (m_hashmap s)
           \<and> entries s' = (key, val) # filter (\<lambda>p. fst p \<noteq> key) (entries s)"
proof -
  let ?l = "m_list s" and ?h = "m_hashmap s"
  have wf: "wfL ?l ?h" using assms by (simp add: wf_List_def)
  from wfL_lookup_Some [OF wf assms(3)] obtain v
    where v: "deref it ?l = Some (key, v)" by auto
  let ?l1 = "filter (\<lambda>n. fst n \<noteq> it) ?l"
  have put: "LRU_put key val s =
      Some (s\<lparr>m_list := (new_node ?l1, key, val) # ?l1, m_hashmap := ?h(key \<mapsto> new_node ?l1)\<rparr>)"
    using assms(2,3) v by (simp add: LRU_put_def getCapacity_def erase_def emplace_front_def)
  have "wfL ((new_node ?l1, key, val) # ?l1) ((?h(key := None))(key \<mapsto> new_node ?l1))"
    using wfL_cons [OF wfL_erase [OF wf assms(3)], of "new_node ?l1" key val] new_node_fresh [of ?l1]
    by simp
  then have "wfL ((new_node ?l1, key, val) # ?l1) (?h(key \<mapsto> new_node ?l1))" by simp
  moreover have "insert key (dom ?h) = dom ?h" using assms(3) by auto
  ultimately show ?thesis using put wfL_erase_entries [OF wf assms(3)]
    by (simp add: wf_List_def entries_def)
qed

lemma LRU_put_new_room:
  assumes "wf_List s" "m_capacity s \<noteq> 0" "m_hashmap s key = None"
    "hashmap_size (m_hashmap s) \<noteq> m_capacity s"
  shows "\<exists>s'. LRU_put key val s = Some s' \<and> wf_List s' \<and> m_capacity s' = m_capacity s
           \<and> entries s' = (key, val) # entries s"
proof -
  have "LRU_put key val s =
      Some (s\<lparr>m_list := (new_node (m_list s), key, val) # m_list s,
              m_hashmap := (m_hashmap s)(key \<mapsto> new_node (m_list s))\<rparr>)"
    using assms by (simp add: LRU_put_def getCapacity_def emplace_front_def)
  then show ?thesis using assms wfL_cons [of "m_list s" "m_hashmap s" "new_node (m_list s)" key val]
      new_node_fresh [of "m_list s"]
    by (simp add: wf_List_def entries_def)
qed

lemma LRU_put_new_full:
  assumes "wf_List s" "m_capacity s \<noteq> 0" "m_hashmap s key = None"
    "hashmap_size (m_hashmap s) = m_capacity s"
  shows "\<exists>s'. LRU_put key val s = Some s' \<and> wf_List s' \<and> m_capacity s' = m_capacity s
           \<and> entries s \<noteq> [] \<and> entries s' = (key, val) # butlast (entries s)"
proof -
  from assms obtain l n where l: "m_list s = l @ [n]"
    using wf_List_nonempty [of s] by (cases "m_list s" rule: rev_cases) auto
  have wf1: "wfL l ((m_hashmap s)(fst (snd n) := None))"
    using assms(1) wfL_butlast [of l n "m_hashmap s"] by (simp add: wf_List_def l)
  have "LRU_put key val s =
      Some (s\<lparr>m_list := (new_node l, key, val) # l,
              m_hashmap := (m_hashmap s)(fst (snd n) := None, key \<mapsto> new_node l)\<rparr>)"
    using assms l by (simp add: LRU_put_def getCapacity_def emplace_front_def)
  then show ?thesis 
    using assms l wfL_cons [OF wf1, of "new_node l" key val] new_node_fresh [of l]
    by (simp add: wf_List_def entries_def butlast_append)
qed


section \<open>The LFU cache preserves its invariant\<close>

lemma wfF_empty: "wfF Map.empty Map.empty"
  by (simp add: wfF_def node_at_def)

lemma wfF_finite: "wfF fm h \<Longrightarrow> finite (dom h)"
  by (simp add: wfF_def)

lemma wfF_bucket: "wfF fm h \<Longrightarrow> fm f = Some l \<Longrightarrow> l \<noteq> [] \<and> distinct (map fst l) \<and> 1 \<le> f"
  by (simp add: wfF_def)

lemma wfF_freq: "wfF fm h \<Longrightarrow> node_at fm f a n \<Longrightarrow> m_freq n = f"
  unfolding wfF_def by blast

lemma wfF_index: "wfF fm h \<Longrightarrow> (h k = Some (f, a)) = (\<exists>n. node_at fm f a n \<and> m_key n = k)"
  unfolding wfF_def by blast

lemma node_at_unique:
  assumes "wfF fm h" "node_at fm f a n" "node_at fm f a n'"
  shows "n' = n"
proof -
  from assms(2,3) obtain l where l: "fm f = Some l" "(a, n) \<in> set l" "(a, n') \<in> set l"
    by (auto simp: node_at_def)
  then show ?thesis using wfF_bucket [OF assms(1) l(1)] eq_key_imp_eq_value by fastforce
qed

lemma node_at_remove:
  "node_at (if filter (\<lambda>x. fst x \<noteq> a) l = [] then fm(f := None)
            else fm(f \<mapsto> filter (\<lambda>x. fst x \<noteq> a) l)) f' a' n'
   \<longleftrightarrow> (if f' = f then (a', n') \<in> set l \<and> a' \<noteq> a else node_at fm f' a' n')"
proof (cases "filter (\<lambda>x. fst x \<noteq> a) l = []")
  case True
  then have "\<And>x. x \<in> set l \<Longrightarrow> fst x = a" by (simp add: filter_empty_conv)
  then show ?thesis using True by (auto simp: node_at_def)
next
  case False
  then show ?thesis by (auto simp: node_at_def)
qed

lemma wfF_remove:
  assumes wf: "wfF fm h" and l: "fm f = Some l" and n: "(a, n) \<in> set l"
  shows "wfF (if filter (\<lambda>x. fst x \<noteq> a) l = [] then fm(f := None)
              else fm(f \<mapsto> filter (\<lambda>x. fst x \<noteq> a) l))
             (h(m_key n := None))"
proof -
  let ?l0 = "filter (\<lambda>x. fst x \<noteq> a) l"
  let ?fm = "if ?l0 = [] then fm(f := None) else fm(f \<mapsto> ?l0)"
  have at: "node_at fm f a n" using l n by (auto simp: node_at_def)
  have na: "node_at ?fm f' a' n' \<longleftrightarrow> node_at fm f' a' n' \<and> \<not> (f' = f \<and> a' = a)" for f' a' n'
    unfolding node_at_remove using l by (auto simp: node_at_def)
  have 1: "finite (dom (h(m_key n := None)))" using wfF_finite [OF wf] by simp
  have 2: "l' \<noteq> [] \<and> distinct (map fst l') \<and> 1 \<le> f'" if "?fm f' = Some l'" for f' l'
    using that wfF_bucket [OF wf, of f'] wfF_bucket [OF wf l]
    by (auto simp: distinct_map_filter split: if_splits)
  have 3: "m_freq n' = f'" if "node_at ?fm f' a' n'" for f' a' n'
    using that wfF_freq [OF wf, of f' a' n'] unfolding na by simp
  have 4: "((h(m_key n := None)) k = Some (f', a')) = (\<exists>n'. node_at ?fm f' a' n' \<and> m_key n' = k)"
    for k f' a'
  proof (cases "k = m_key n")
    case True
    have "h k = Some (f, a)" using wfF_index [OF wf, of k f a] at True by blast
    then have "\<not> (node_at fm f' a' n' \<and> \<not> (f' = f \<and> a' = a) \<and> m_key n' = k)" for n'
      using wfF_index [OF wf, of k f' a'] by auto
    then show ?thesis using True unfolding na by auto
  next
    case False
    have "node_at fm f' a' n' \<and> m_key n' = k \<Longrightarrow> \<not> (f' = f \<and> a' = a)" for n'
      using node_at_unique [OF wf at] False by blast
    then show ?thesis using False wfF_index [OF wf, of k f' a'] unfolding na by auto
  qed
  show ?thesis unfolding wfF_def using 1 2 3 4 by blast
qed

lemma node_at_insert:
  "node_at (fm(f \<mapsto> (a, N) # bucket fm f)) f' a' n'
   \<longleftrightarrow> (f' = f \<and> a' = a \<and> n' = N) \<or> node_at fm f' a' n'"
  by (auto simp: node_at_def bucket_def split: option.splits)

lemma wfF_insert:
  assumes wf: "wfF fm h" and k: "h k = None" and f: "1 \<le> f"
  shows "wfF (fm(f \<mapsto> (new_node (bucket fm f), \<lparr>m_key = k, m_value = v, m_freq = f\<rparr>) # bucket fm f))
             (h(k \<mapsto> (f, new_node (bucket fm f))))"
proof -
  let ?a = "new_node (bucket fm f)"
  let ?N = "\<lparr>m_key = k, m_value = v, m_freq = f\<rparr>"
  let ?fm = "fm(f \<mapsto> (?a, ?N) # bucket fm f)"
  have nk: "\<not> (node_at fm f' a' n' \<and> m_key n' = k)" for f' a' n'
    using wfF_index [OF wf, of k f' a'] k by auto
  have db: "distinct (map fst (bucket fm f))"
    using wfF_bucket [OF wf, of f] by (auto simp: bucket_def split: option.splits)
  have 1: "finite (dom (h(k \<mapsto> (f, ?a))))" using wfF_finite [OF wf] by simp
  have 2: "l' \<noteq> [] \<and> distinct (map fst l') \<and> 1 \<le> f'" if "?fm f' = Some l'" for f' l'
    using that wfF_bucket [OF wf, of f'] f db new_node_fresh [of "bucket fm f"]
    by (auto split: if_splits)
  have 3: "m_freq n' = f'" if "node_at ?fm f' a' n'" for f' a' n'
    using that wfF_freq [OF wf, of f' a' n'] unfolding node_at_insert by auto
  have 4: "((h(k \<mapsto> (f, ?a))) k' = Some (f', a')) = (\<exists>n'. node_at ?fm f' a' n' \<and> m_key n' = k')"
    for k' f' a'
  proof (cases "k' = k")
    case True
    then show ?thesis using nk unfolding node_at_insert by auto
  next
    case False
    then show ?thesis using wfF_index [OF wf, of k' f' a'] unfolding node_at_insert by auto
  qed
  show ?thesis unfolding wfF_def using 1 2 3 4 by blast
qed


lemma wf_LFUCache: "wf_LFU (LFUCache n)"
  by (simp add: wf_LFU_def LFUCache_def wfF_empty min_ok_def)

lemma wf_LFU_clear: "wf_LFU (LFU_clear s)"
  by (simp add: wf_LFU_def LFU_clear_def wfF_empty min_ok_def)

lemma wf_LFU_setCapacity: "wf_LFU (setCapacity n s) = wf_LFU s"
  by (simp add: wf_LFU_def setCapacity_def)

lemma deref_bucket_node:
  assumes "wfF fm h" "node_at fm f a n"
  shows "deref_bucket (f, a) fm = Some n"
proof -
  from assms(2) obtain l where l: "fm f = Some l" "(a, n) \<in> set l" by (auto simp: node_at_def)
  then show ?thesis using wfF_bucket [OF assms(1) l(1)] by (simp add: deref_bucket_def deref_Some)
qed

lemma filter_snoc_distinct:
  "distinct (map fst (l @ [(a, n)])) \<Longrightarrow> filter (\<lambda>x. fst x \<noteq> a) (l @ [(a, n)]) = l"
  by (auto simp: filter_id_conv)

lemma LFU_promote_present:
  assumes wf: "wf_LFU s" and k: "m_hashmap_LFU s key = Some (f, a)" and lt: "f < INT_MAX"
  shows "\<exists>n s' a'. deref_bucket (f, a) (m_freqHashmap s) = Some n \<and> m_freq n = f
           \<and> LFU_promote key val (f, a) f s = Some s' \<and> wf_LFU s'
           \<and> m_capacity s' = m_capacity s \<and> dom (m_hashmap_LFU s') = dom (m_hashmap_LFU s)
           \<and> m_hashmap_LFU s' key = Some (f + 1, a')
           \<and> node_at (m_freqHashmap s') (f + 1) a' \<lparr>m_key = key, m_value = val, m_freq = f + 1\<rparr>
           \<and> dom (m_freqHashmap s') \<subseteq> insert (f + 1) (dom (m_freqHashmap s))"
proof -
  let ?fm = "m_freqHashmap s" and ?h = "m_hashmap_LFU s" and ?mf = "m_minimalFreq s"
  have wfF: "wfF ?fm ?h" and mo: "min_ok ?fm ?h ?mf" using wf by (auto simp: wf_LFU_def)
  from wfF_index [OF wfF, of key f a] k obtain n where n: "node_at ?fm f a n" "m_key n = key"
    by auto
  then obtain l where l: "?fm f = Some l" "(a, n) \<in> set l" by (auto simp: node_at_def)
  have f1: "1 \<le> f" using wfF_bucket [OF wfF l(1)] by simp
  have d: "deref_bucket (f, a) ?fm = Some n" by (rule deref_bucket_node [OF wfF n(1)])
  have da: "deref a l = Some n" using d l(1) by (simp add: deref_bucket_def)
  let ?l0 = "filter (\<lambda>x. fst x \<noteq> a) l"
  let ?fm2 = "if ?l0 = [] then ?fm(f := None) else ?fm(f \<mapsto> ?l0)"
  let ?mf' = "if ?l0 = [] \<and> ?mf = f then ?mf + 1 else ?mf"
  let ?lb = "bucket ?fm2 (f + 1)"
  let ?N = "\<lparr>m_key = key, m_value = val, m_freq = f + 1\<rparr>"
  let ?fm3 = "?fm2(f + 1 \<mapsto> (new_node ?lb, ?N) # ?lb)"
  let ?h' = "?h(key \<mapsto> (f + 1, new_node ?lb))"
  let ?s' = "s\<lparr>m_minimalFreq := ?mf', m_hashmap_LFU := ?h', m_freqHashmap := ?fm3\<rparr>"
  have pr: "LFU_promote key val (f, a) f s = Some ?s'"
    using l(1) da lt
    by (simp add: LFU_promote_def bucket_def erase_def emplace_front_def increment_def Let_def)
  have "wfF ?fm2 (?h(key := None))" using wfF_remove [OF wfF l] n(2) by simp
  from wfF_insert [OF this, of key "f + 1" val] f1
  have wfF': "wfF ?fm3 ?h'" by simp
  have hne: "?h \<noteq> Map.empty" using k by auto
  have fin: "f \<in> dom ?fm" using l(1) by auto
  have dom2: "dom ?fm2 = (if ?l0 = [] then dom ?fm - {f} else dom ?fm)"
    using fin by auto
  have le: "?mf \<le> x" if "x \<in> dom ?fm" for x
    using mo hne that by (auto simp: min_ok_def)
  have mfin: "?mf \<in> dom ?fm" using mo hne by (auto simp: min_ok_def)
  have dom3: "dom ?fm3 = insert (f + 1) (dom ?fm2)" by simp
  have "?mf' \<in> dom ?fm3" unfolding dom3 dom2 using mfin by auto
  moreover have "?mf' \<le> x" if "x \<in> dom ?fm3" for x
  proof -
    from that consider "x = f + 1" | "x \<in> dom ?fm2" unfolding dom3 by blast
    then show ?thesis
    proof cases
      case 1
      then show ?thesis using le [OF fin] by auto
    next
      case 2
      then have "x \<in> dom ?fm" "?l0 = [] \<Longrightarrow> x \<noteq> f" unfolding dom2 by (auto split: if_splits)
      then show ?thesis using le [of x] by auto
    qed
  qed
  ultimately have mo': "min_ok ?fm3 ?h' ?mf'" unfolding min_ok_def by blast
  have "node_at ?fm3 (f + 1) (new_node ?lb) ?N" by (simp add: node_at_def)
  moreover have "dom ?h' = dom ?h" using k by auto
  moreover have "dom ?fm3 \<subseteq> insert (f + 1) (dom ?fm)" unfolding dom3 dom2 by auto
  ultimately show ?thesis using d pr wfF' mo' wfF_freq [OF wfF n(1)]
    by (simp add: wf_LFU_def del: dom_fun_upd)
qed

lemma LFU_promote_overflow:
  "\<not> freq < INT_MAX \<Longrightarrow> LFU_promote key val it freq s = None"
  by (simp add: LFU_promote_def increment_def Let_def split: bind_splits)

text \<open>The frequency stored for a key, 0 for a key that the cache does not hold.\<close>

lemma LFU_frequency_absent: "m_hashmap_LFU s key = None \<Longrightarrow> LFU_frequency key s = 0"
  by (simp add: LFU_frequency_def)

lemma LFU_frequency_present:
  assumes "wf_LFU s" "m_hashmap_LFU s key = Some (f, a)"
  shows "LFU_frequency key s = f"
proof -
  from assms(1) have wfF: "wfF (m_freqHashmap s) (m_hashmap_LFU s)" by (simp add: wf_LFU_def)
  from wfF_index [OF wfF, of key f a] assms(2) obtain n where n: "node_at (m_freqHashmap s) f a n"
    by auto
  from deref_bucket_node [OF wfF n] wfF_freq [OF wfF n] assms(2)
  show ?thesis by (simp add: LFU_frequency_def)
qed

lemma LFU_frequency_in_dom:
  assumes "wf_LFU s" "m_hashmap_LFU s key = Some (f, a)"
  shows "f \<in> dom (m_freqHashmap s)"
proof -
  from assms(1) have wfF: "wfF (m_freqHashmap s) (m_hashmap_LFU s)" by (simp add: wf_LFU_def)
  from wfF_index [OF wfF, of key f a] assms(2) show ?thesis by (auto simp: node_at_def)
qed

lemma LFU_get_absent:
  "m_hashmap_LFU s key = None \<Longrightarrow> LFU_get key s = Some (Inl KeyNotFound, s)"
  by (simp add: LFU_get_def)

lemma LFU_get_present:
  assumes wf: "wf_LFU s" and k: "m_hashmap_LFU s key = Some (f, a)" and lt: "f < INT_MAX"
  shows "\<exists>n s'. deref_bucket (f, a) (m_freqHashmap s) = Some n
           \<and> LFU_get key s = Some (Inr (m_value n), s') \<and> wf_LFU s'
           \<and> m_capacity s' = m_capacity s \<and> dom (m_hashmap_LFU s') = dom (m_hashmap_LFU s)
           \<and> dom (m_freqHashmap s') \<subseteq> insert (f + 1) (dom (m_freqHashmap s))"
proof -
  from wf have wfF: "wfF (m_freqHashmap s) (m_hashmap_LFU s)" by (simp add: wf_LFU_def)
  from wfF_index [OF wfF, of key f a] k obtain n where n: "node_at (m_freqHashmap s) f a n"
    by auto
  have d: "deref_bucket (f, a) (m_freqHashmap s) = Some n" by (rule deref_bucket_node [OF wfF n])
  from LFU_promote_present [OF wf k lt, of "m_value n"] d
  show ?thesis using k by (auto simp: LFU_get_def)
qed

lemma LFU_get_overflow:
  assumes wf: "wf_LFU s" and k: "m_hashmap_LFU s key = Some (f, a)" and ge: "\<not> f < INT_MAX"
  shows "LFU_get key s = None"
proof -
  from wf have wfF: "wfF (m_freqHashmap s) (m_hashmap_LFU s)" by (simp add: wf_LFU_def)
  from wfF_index [OF wfF, of key f a] k obtain n where n: "node_at (m_freqHashmap s) f a n"
    by auto
  have d: "deref_bucket (f, a) (m_freqHashmap s) = Some n" by (rule deref_bucket_node [OF wfF n])
  have "m_freq n = f" by (rule wfF_freq [OF wfF n])
  then show ?thesis using k d ge by (simp add: LFU_get_def LFU_promote_overflow)
qed

lemma LFU_put_zero: "m_capacity s = 0 \<Longrightarrow> LFU_put key val s = Some s"
  by (simp add: LFU_put_def getCapacity_def)

lemma LFU_put_existing:
  assumes wf: "wf_LFU s" and c: "m_capacity s \<noteq> 0" and k: "m_hashmap_LFU s key = Some (f, a)"
    and lt: "f < INT_MAX"
  shows "\<exists>s' a'. LFU_put key val s = Some s' \<and> wf_LFU s'
           \<and> m_capacity s' = m_capacity s \<and> dom (m_hashmap_LFU s') = dom (m_hashmap_LFU s)
           \<and> m_hashmap_LFU s' key = Some (f + 1, a')
           \<and> node_at (m_freqHashmap s') (f + 1) a' \<lparr>m_key = key, m_value = val, m_freq = f + 1\<rparr>
           \<and> dom (m_freqHashmap s') \<subseteq> insert (f + 1) (dom (m_freqHashmap s))"
  using LFU_promote_present [OF wf k lt, of val] c k
  by (auto simp: LFU_put_def getCapacity_def)

lemma LFU_put_overflow:
  assumes wf: "wf_LFU s" and c: "m_capacity s \<noteq> 0" and k: "m_hashmap_LFU s key = Some (f, a)"
    and ge: "\<not> f < INT_MAX"
  shows "LFU_put key val s = None"
proof -
  from wf have wfF: "wfF (m_freqHashmap s) (m_hashmap_LFU s)" by (simp add: wf_LFU_def)
  from wfF_index [OF wfF, of key f a] k obtain n where n: "node_at (m_freqHashmap s) f a n"
    by auto
  have d: "deref_bucket (f, a) (m_freqHashmap s) = Some n" by (rule deref_bucket_node [OF wfF n])
  have "m_freq n = f" by (rule wfF_freq [OF wfF n])
  then show ?thesis using c k d ge
    by (simp add: LFU_put_def getCapacity_def LFU_promote_overflow)
qed

lemma LFU_insert_new:
  assumes wfF: "wfF fm h" and k: "h key = None"
  shows "wf_LFU (s\<lparr>m_minimalFreq := 1, 
             m_hashmap_LFU := h(key \<mapsto> (1, new_node (bucket fm 1))),
             m_freqHashmap := fm(1 \<mapsto> (new_node (bucket fm 1), \<lparr>m_key = key, m_value = val, m_freq = 1\<rparr>) # bucket fm 1)\<rparr>)"
proof -
  have "\<And>f l. fm f = Some l \<Longrightarrow> 1 \<le> f" using wfF_bucket [OF wfF] by blast
  then show ?thesis using wfF_insert [OF wfF k, of 1 val]
    by (auto simp: wf_LFU_def min_ok_def)
qed

lemma LFU_put_new_room:
  assumes wf: "wf_LFU s" and c: "m_capacity s \<noteq> 0" and k: "m_hashmap_LFU s key = None"
    and r: "hashmap_size (m_hashmap_LFU s) \<noteq> m_capacity s"
  shows "\<exists>s' a'. LFU_put key val s = Some s' \<and> wf_LFU s'
           \<and> m_capacity s' = m_capacity s \<and> m_minimalFreq s' = 1
           \<and> dom (m_hashmap_LFU s') = insert key (dom (m_hashmap_LFU s))
           \<and> m_hashmap_LFU s' key = Some (1, a')
           \<and> node_at (m_freqHashmap s') 1 a' \<lparr>m_key = key, m_value = val, m_freq = 1\<rparr>"
proof -
  let ?fm = "m_freqHashmap s" and ?h = "m_hashmap_LFU s"
  from wf have wfF: "wfF ?fm ?h" by (simp add: wf_LFU_def)
  let ?s' = "s\<lparr>m_minimalFreq := 1, 
             m_hashmap_LFU := ?h(key \<mapsto> (1, new_node (bucket ?fm 1))),
             m_freqHashmap := ?fm(1 \<mapsto> (new_node (bucket ?fm 1), \<lparr>m_key = key, m_value = val, m_freq = 1\<rparr>) # bucket ?fm 1)\<rparr>"
  have "LFU_put key val s = Some ?s'"
    using c k r by (simp add: LFU_put_def getCapacity_def emplace_front_def Let_def)
  then show ?thesis using LFU_insert_new [OF wfF k, where s = s and val = val]
    by (simp add: node_at_def)
qed

lemma LFU_put_new_full:
  assumes wf: "wf_LFU s" and c: "m_capacity s \<noteq> 0" and k: "m_hashmap_LFU s key = None"
    and r: "hashmap_size (m_hashmap_LFU s) = m_capacity s"
  shows "\<exists>s' a' l n. LFU_put key val s = Some s' \<and> wf_LFU s'
           \<and> m_capacity s' = m_capacity s \<and> m_minimalFreq s' = 1
           \<and> m_freqHashmap s (m_minimalFreq s) = Some l \<and> l \<noteq> [] \<and> n = snd (last l)
           \<and> dom (m_hashmap_LFU s') = insert key (dom (m_hashmap_LFU s) - {m_key n})
           \<and> m_hashmap_LFU s' key = Some (1, a')
           \<and> node_at (m_freqHashmap s') 1 a' \<lparr>m_key = key, m_value = val, m_freq = 1\<rparr>"
proof -
  let ?fm = "m_freqHashmap s" and ?h = "m_hashmap_LFU s" and ?mf = "m_minimalFreq s"
  from wf have wfF: "wfF ?fm ?h" and mo: "min_ok ?fm ?h ?mf" by (auto simp: wf_LFU_def)
  have "?h \<noteq> Map.empty" using c r by (auto simp: hashmap_size_def)
  then obtain l where l: "?fm ?mf = Some l" using mo by (auto simp: min_ok_def)
  then have lne: "l \<noteq> []" and dl: "distinct (map fst l)" using wfF_bucket [OF wfF l] by auto
  then obtain l0 a n where l0: "l = l0 @ [(a, n)]" by (cases l rule: rev_cases) auto
  have fl: "filter (\<lambda>x. fst x \<noteq> a) l = l0" using dl unfolding l0 by (rule filter_snoc_distinct)
  let ?fm1 = "if l0 = [] then ?fm(?mf := None) else ?fm(?mf \<mapsto> l0)"
  let ?h1 = "?h(m_key n := None)"
  have wf1: "wfF ?fm1 ?h1" using wfF_remove [OF wfF l, of a n] unfolding fl by (simp add: l0)
  have k1: "?h1 key = None" using k by simp
  let ?s' = "s\<lparr>m_minimalFreq := 1, 
             m_hashmap_LFU := ?h1(key \<mapsto> (1, new_node (bucket ?fm1 1))),
             m_freqHashmap := ?fm1(1 \<mapsto> (new_node (bucket ?fm1 1), \<lparr>m_key = key, m_value = val, m_freq = 1\<rparr>) # bucket ?fm1 1)\<rparr>"
  have put: "LFU_put key val s = Some ?s'"
    using c k r l l0 by (simp add: LFU_put_def getCapacity_def emplace_front_def Let_def bucket_def)
  have "node_at (m_freqHashmap ?s') 1 (new_node (bucket ?fm1 1)) \<lparr>m_key = key, m_value = val, m_freq = 1\<rparr>"
    by (simp add: node_at_def)
  moreover have "dom (m_hashmap_LFU ?s') = insert key (dom ?h - {m_key n})" by simp
  moreover have "n = snd (last l)" by (simp add: l0)
  moreover have "m_hashmap_LFU ?s' key = Some (1, new_node (bucket ?fm1 1))" by simp
  moreover have "m_capacity ?s' = m_capacity s" "m_minimalFreq ?s' = 1" by simp_all
  ultimately show ?thesis using put LFU_insert_new [OF wf1 k1, where s = s and val = val] l lne
    by blast
qed

lemma LFU_put_new_dom:
  assumes "m_hashmap_LFU s key = None" "LFU_put key val s = Some s'"
  shows "dom (m_freqHashmap s') \<subseteq> insert 1 (dom (m_freqHashmap s))"
  using assms
  by (auto simp: LFU_put_def getCapacity_def Let_def emplace_front_def bucket_def pop_back_def
      split: if_splits bind_splits option.splits list.splits)


section \<open>What \<open>put\<close> stores and \<open>get\<close> finds\<close>

lemma map_of_overwrite:
  "key \<in> fst ` set es \<Longrightarrow> map_of (map (\<lambda>p. if fst p = key then (fst p, val) else p) es) key = Some val"
  by (induction es) auto

lemma map_fst_overwrite:
  "map fst (map (\<lambda>p. if fst p = key then (fst p, val) else p) es) = map fst es"
  by (induction es) auto

lemma map_of_snoc_new:
  "key \<notin> fst ` set es \<Longrightarrow> map_of (es @ [(key, val)]) key = Some val"
  by (induction es) auto

lemma wf_List_absent: "wf_List s \<Longrightarrow> (m_hashmap s key = None) = (key \<notin> fst ` set (entries s))"
  using wf_List_keys [of s] by (auto simp: domIff)

lemma notin_tl: "x \<notin> f ` set l \<Longrightarrow> x \<notin> f ` set (tl l)"
  by (cases l) auto

lemma notin_butlast: "x \<notin> f ` set l \<Longrightarrow> x \<notin> f ` set (butlast l)"
  by (auto dest: in_set_butlastD)

lemma FIFO_put_stores:
  assumes "wf_List s" "m_capacity s \<noteq> 0"
  shows "\<exists>s'. FIFO_put key val s = Some s' \<and> wf_List s' \<and> m_capacity s' = m_capacity s
           \<and> map_of (entries s') key = Some val"
proof (cases "m_hashmap s key")
  case None
  then have k: "key \<notin> fst ` set (entries s)" using assms(1) by (simp add: wf_List_absent)
  show ?thesis
  proof (cases "hashmap_size (m_hashmap s) = m_capacity s")
    case True
    from FIFO_put_new_full [OF assms None True, of val] notin_tl [OF k]
    show ?thesis by (auto simp: map_of_snoc_new simp del: map_of_append)
  next
    case False
    from FIFO_put_new_room [OF assms None False, of val] k
    show ?thesis by (auto simp: map_of_snoc_new simp del: map_of_append)
  qed
next
  case (Some it)
  then have k: "key \<in> fst ` set (entries s)" using assms(1) wf_List_absent [of s key] by auto
  from FIFO_put_existing [OF assms Some, of val] obtain s' where
    s': "FIFO_put key val s = Some s'" "wf_List s'" "m_capacity s' = m_capacity s"
      "entries s' = map (\<lambda>p. if fst p = key then (fst p, val) else p) (entries s)" by blast
  have "map_of (entries s') key = Some val" unfolding s'(4) using k by (rule map_of_overwrite)
  with s' show ?thesis by blast
qed

lemma FILO_put_stores:
  assumes "wf_List s" "m_capacity s \<noteq> 0"
  shows "\<exists>s'. FILO_put key val s = Some s' \<and> wf_List s' \<and> m_capacity s' = m_capacity s
           \<and> map_of (entries s') key = Some val"
proof (cases "m_hashmap s key")
  case None
  then have k: "key \<notin> fst ` set (entries s)" using assms(1) by (simp add: wf_List_absent)
  show ?thesis
  proof (cases "hashmap_size (m_hashmap s) = m_capacity s")
    case True
    from FILO_put_new_full [OF assms None True, of val] notin_butlast [OF k]
    show ?thesis by (auto simp: map_of_snoc_new simp del: map_of_append)
  next
    case False
    from FILO_put_new_room [OF assms None False, of val] k
    show ?thesis by (auto simp: map_of_snoc_new simp del: map_of_append)
  qed
next
  case (Some it)
  then have k: "key \<in> fst ` set (entries s)" using assms(1) wf_List_absent [of s key] by auto
  from FILO_put_existing [OF assms Some, of val] obtain s' where
    s': "FILO_put key val s = Some s'" "wf_List s'" "m_capacity s' = m_capacity s"
      "entries s' = map (\<lambda>p. if fst p = key then (fst p, val) else p) (entries s)" by blast
  have "map_of (entries s') key = Some val" unfolding s'(4) using k by (rule map_of_overwrite)
  with s' show ?thesis by blast
qed

lemma LRU_put_stores:
  assumes "wf_List s" "m_capacity s \<noteq> 0"
  shows "\<exists>s'. LRU_put key val s = Some s' \<and> wf_List s' \<and> m_capacity s' = m_capacity s
           \<and> map_of (entries s') key = Some val"
proof (cases "m_hashmap s key")
  case None
  show ?thesis
  proof (cases "hashmap_size (m_hashmap s) = m_capacity s")
    case True
    from LRU_put_new_full [OF assms None True, of val] show ?thesis by auto
  next
    case False
    from LRU_put_new_room [OF assms None False, of val] show ?thesis by auto
  qed
next
  case (Some it)
  from LRU_put_existing [OF assms Some, of val] show ?thesis by auto
qed

lemma LFU_put_stores:
  assumes "wf_LFU s" "m_capacity s \<noteq> 0" "LFU_frequency key s < INT_MAX"
  shows "\<exists>s' a. LFU_put key val s = Some s' \<and> wf_LFU s' \<and> m_capacity s' = m_capacity s
           \<and> m_hashmap_LFU s' key = Some (LFU_frequency key s + 1, a)
           \<and> node_at (m_freqHashmap s') (LFU_frequency key s + 1) a
                \<lparr>m_key = key, m_value = val, m_freq = LFU_frequency key s + 1\<rparr>"
proof (cases "m_hashmap_LFU s key")
  case None
  then have z: "LFU_frequency key s = 0" by (rule LFU_frequency_absent)
  show ?thesis
  proof (cases "hashmap_size (m_hashmap_LFU s) = m_capacity s")
    case True
    from LFU_put_new_full [OF assms(1,2) None True, of val] show ?thesis unfolding z by auto
  next
    case False
    from LFU_put_new_room [OF assms(1,2) None False, of val] show ?thesis unfolding z by auto
  qed
next
  case (Some it)
  obtain f a where it: "it = (f, a)" by (cases it)
  have f: "LFU_frequency key s = f" using LFU_frequency_present [OF assms(1)] Some it by simp
  from LFU_put_existing [OF assms(1,2), of key f a val] Some it assms(3) f
  show ?thesis by auto
qed

lemma List_get_stored:
  assumes "wf_List s" "map_of (entries s) key = Some val"
  shows "FIFO_get key s = Some (Inr val, s)" "FILO_get key s = Some (Inr val, s)"
    "\<exists>s'. LRU_get key s = Some (Inr val, s') \<and> wf_List s'"
proof -
  have "key \<in> fst ` set (entries s)" using assms(2) by (metis map_of_eq_None_iff option.distinct(1))
  then obtain it where it: "m_hashmap s key = Some it"
    using wf_List_absent [OF assms(1), of key] by auto
  show "FIFO_get key s = Some (Inr val, s)"
    using FIFO_get_present [OF assms(1) it] assms(2) by auto
  then show "FILO_get key s = Some (Inr val, s)" by (simp add: FILO_get_eq)
  show "\<exists>s'. LRU_get key s = Some (Inr val, s') \<and> wf_List s'"
    using LRU_get_present [OF assms(1) it] assms(2) by auto
qed

lemma LFU_get_stored:
  assumes "wf_LFU s" "m_hashmap_LFU s key = Some (f, a)" "node_at (m_freqHashmap s) f a n"
    and "f < INT_MAX"
  shows "\<exists>s'. LFU_get key s = Some (Inr (m_value n), s') \<and> wf_LFU s'"
proof -
  from assms(1) have "wfF (m_freqHashmap s) (m_hashmap_LFU s)" by (simp add: wf_LFU_def)
  then have "deref_bucket (f, a) (m_freqHashmap s) = Some n"
    using assms(3) by (rule deref_bucket_node)
  then show ?thesis using LFU_get_present [OF assms(1,2,4)] by auto
qed

section \<open>Caches behind the interface\<close>

lemma FIFO_put_wf:
  assumes "wf_List s"
  shows "\<exists>s'. FIFO_put key val s = Some s' \<and> wf_List s' \<and> m_capacity s' = m_capacity s"
proof (cases "m_capacity s = 0")
  case True
  then show ?thesis using assms by (simp add: FIFO_put_zero)
next
  case False
  from FIFO_put_stores [OF assms False] show ?thesis by blast
qed

lemma FILO_put_wf:
  assumes "wf_List s"
  shows "\<exists>s'. FILO_put key val s = Some s' \<and> wf_List s' \<and> m_capacity s' = m_capacity s"
proof (cases "m_capacity s = 0")
  case True
  then show ?thesis using assms by (simp add: FILO_put_zero)
next
  case False
  from FILO_put_stores [OF assms False] show ?thesis by blast
qed

lemma LRU_put_wf:
  assumes "wf_List s"
  shows "\<exists>s'. LRU_put key val s = Some s' \<and> wf_List s' \<and> m_capacity s' = m_capacity s"
proof (cases "m_capacity s = 0")
  case True
  then show ?thesis using assms by (simp add: LRU_put_zero)
next
  case False
  from LRU_put_stores [OF assms False] show ?thesis by blast
qed

text \<open>The LFU cache keeps its invariant whenever the call is defined, and the call is
  defined unless it increments a frequency that is \<open>INT_MAX\<close>.\<close>

lemma LFU_put_wf:
  assumes wf: "wf_LFU s" and p: "LFU_put key val s = Some s'"
  shows "wf_LFU s' \<and> m_capacity s' = m_capacity s"
proof (cases "m_capacity s = 0")
  case True
  then show ?thesis using wf p by (simp add: LFU_put_zero)
next
  case False
  show ?thesis
  proof (cases "m_hashmap_LFU s key")
    case None
    show ?thesis
    proof (cases "hashmap_size (m_hashmap_LFU s) = m_capacity s")
      case True
      from LFU_put_new_full [OF wf False None True, of val] p show ?thesis by auto
    next
      case f: False
      from LFU_put_new_room [OF wf False None f, of val] p show ?thesis by auto
    qed
  next
    case (Some it)
    obtain f a where it: "it = (f, a)" by (cases it)
    show ?thesis
    proof (cases "f < INT_MAX")
      case True
      from LFU_put_existing [OF wf False, of key f a val] Some it True p show ?thesis by auto
    next
      case f: False
      from LFU_put_overflow [OF wf False, of key f a val] Some it f p show ?thesis by simp
    qed
  qed
qed

lemma FIFO_get_wf:
  assumes "wf_List s"
  shows "\<exists>r. FIFO_get key s = Some (r, s)"
proof (cases "m_hashmap s key")
  case None
  then show ?thesis by (simp add: FIFO_get_absent)
next
  case (Some it)
  from FIFO_get_present [OF assms Some] show ?thesis by blast
qed

lemma LRU_get_wf:
  assumes "wf_List s"
  shows "\<exists>r s'. LRU_get key s = Some (r, s') \<and> wf_List s' \<and> m_capacity s' = m_capacity s"
proof (cases "m_hashmap s key")
  case None
  then show ?thesis using assms by (simp add: LRU_get_absent)
next
  case (Some it)
  from LRU_get_present [OF assms Some] show ?thesis by blast
qed

lemma LFU_get_wf:
  assumes wf: "wf_LFU s" and g: "LFU_get key s = Some (r, s')"
  shows "wf_LFU s' \<and> m_capacity s' = m_capacity s"
proof (cases "m_hashmap_LFU s key")
  case None
  then show ?thesis using wf g by (simp add: LFU_get_absent)
next
  case (Some it)
  obtain f a where it: "it = (f, a)" by (cases it)
  show ?thesis
  proof (cases "f < INT_MAX")
    case True
    from LFU_get_present [OF wf, of key f a] Some it True g show ?thesis by auto
  next
    case False
    from LFU_get_overflow [OF wf, of key f a] Some it False g show ?thesis by simp
  qed
qed

lemma wf_construct: "wf_cache (construct p n)"
  by (cases p) (simp_all add: FILOCache_def FIFOCache_def LRUCache_def wf_ListCache wf_LFUCache)

lemma wf_clear: "wf_cache (clear c)"
  by (cases c) (simp_all add: wf_List_clear wf_LFU_clear)

lemma wf_set_capacity: "wf_cache (set_capacity n c) = wf_cache c"
  by (cases c) (simp_all add: wf_List_setCapacity wf_LFU_setCapacity)

lemma wf_put:
  assumes "wf_cache c" "put key val c = Some c'"
  shows "wf_cache c' \<and> capacity_of c' = capacity_of c \<and> policy_of c' = policy_of c"
proof (cases c)
  case (FILO s)
  with assms(2) obtain s' where s': "FILO_put key val s = Some s'" "c' = FILO s'" by auto
  from FILO_put_wf [of s key val] FILO assms(1) s'(1)
  have "wf_List s' \<and> m_capacity s' = m_capacity s" by auto
  with FILO s'(2) show ?thesis by (simp add: getCapacity_def)
next
  case (FIFO s)
  with assms(2) obtain s' where s': "FIFO_put key val s = Some s'" "c' = FIFO s'" by auto
  from FIFO_put_wf [of s key val] FIFO assms(1) s'(1)
  have "wf_List s' \<and> m_capacity s' = m_capacity s" by auto
  with FIFO s'(2) show ?thesis by (simp add: getCapacity_def)
next
  case (LRU s)
  with assms(2) obtain s' where s': "LRU_put key val s = Some s'" "c' = LRU s'" by auto
  from LRU_put_wf [of s key val] LRU assms(1) s'(1)
  have "wf_List s' \<and> m_capacity s' = m_capacity s" by auto
  with LRU s'(2) show ?thesis by (simp add: getCapacity_def)
next
  case (LFU s)
  with assms(2) obtain s' where s': "LFU_put key val s = Some s'" "c' = LFU s'" by auto
  from LFU_put_wf [OF _ s'(1)] LFU assms(1)
  have "wf_LFU s' \<and> m_capacity s' = m_capacity s" by simp
  with LFU s'(2) show ?thesis by (simp add: getCapacity_def)
qed

lemma wf_get:
  assumes "wf_cache c" "get key c = Some (r, c')"
  shows "wf_cache c' \<and> capacity_of c' = capacity_of c \<and> policy_of c' = policy_of c"
proof (cases c)
  case (FILO s)
  with assms(2) obtain s' where s': "FIFO_get key s = Some (r, s')" "c' = FILO s'"
    by (auto simp: FILO_get_eq)
  from FIFO_get_wf [of s key] FILO assms(1) s'(1) have "s' = s" by auto
  with FILO s'(2) assms(1) show ?thesis by simp
next
  case (FIFO s)
  with assms(2) obtain s' where s': "FIFO_get key s = Some (r, s')" "c' = FIFO s'" by auto
  from FIFO_get_wf [of s key] FIFO assms(1) s'(1) have "s' = s" by auto
  with FIFO s'(2) assms(1) show ?thesis by simp
next
  case (LRU s)
  with assms(2) obtain s' where s': "LRU_get key s = Some (r, s')" "c' = LRU s'" by auto
  from LRU_get_wf [of s key] LRU assms(1) s'(1)
  have "wf_List s' \<and> m_capacity s' = m_capacity s" by auto
  with LRU s'(2) show ?thesis by (simp add: getCapacity_def)
next
  case (LFU s)
  with assms(2) obtain s' where s': "LFU_get key s = Some (r, s')" "c' = LFU s'" by auto
  from LFU_get_wf [OF _ s'(1)] LFU assms(1)
  have "wf_LFU s' \<and> m_capacity s' = m_capacity s" by simp
  with LFU s'(2) show ?thesis by (simp add: getCapacity_def)
qed

lemma policy_of_clear: "policy_of (clear c) = policy_of c"
  by (cases c) simp_all

lemma policy_of_set_capacity: "policy_of (set_capacity n c) = policy_of c"
  by (cases c) simp_all

lemma policy_of_construct: "policy_of (construct p n) = p"
  by (cases p) simp_all

text \<open>A sequence of calls that runs to its end on a well-formed cache leaves a
  well-formed cache of the same class.\<close>

lemma run_wf:
  "wf_cache c \<Longrightarrow> run calls c = Some (rs, c') \<Longrightarrow> wf_cache c' \<and> policy_of c' = policy_of c"
proof (induction calls arbitrary: c rs)
  case Nil
  then show ?case by simp
next
  case (Cons call calls)
  show ?case
  proof (cases call)
    case (Get key)
    with Cons.prems(2) obtain r c1 rs1 where
      c1: "get key c = Some (r, c1)" "run calls c1 = Some (rs1, c')"
      by (auto simp: bind_eq_Some_conv)
    from wf_get [OF Cons.prems(1) c1(1)] Cons.IH [OF _ c1(2)] show ?thesis by simp
  next
    case (Put key val)
    with Cons.prems(2) obtain c1 where
      c1: "put key val c = Some c1" "run calls c1 = Some (rs, c')"
      by (auto simp: bind_eq_Some_conv)
    from wf_put [OF Cons.prems(1) c1(1)] Cons.IH [OF _ c1(2)] show ?thesis by simp
  next
    case Clear
    with Cons.prems(2) have "run calls (clear c) = Some (rs, c')" by simp
    from Cons.IH [OF wf_clear this] show ?thesis by (simp add: policy_of_clear)
  next
    case (SetCapacity n)
    with Cons.prems(2) have "run calls (set_capacity n c) = Some (rs, c')" by simp
    from Cons.IH [OF _ this] Cons.prems(1) show ?thesis
      by (simp add: policy_of_set_capacity wf_set_capacity)
  qed
qed

lemma reachable_wf: "run calls (construct p n) = Some (rs, c) \<Longrightarrow> wf_cache c"
  using run_wf [OF wf_construct] by blast

lemma reachable_policy: "run calls (construct p n) = Some (rs, c) \<Longrightarrow> policy_of c = p"
  using run_wf [OF wf_construct, of calls p n rs c] by (simp add: policy_of_construct)

text \<open>
  Calls are defined as long as the frequencies stay below \<open>INT_MAX\<close>. Every call
  raises the largest frequency by at most one, so a sequence of at most \<open>INT_MAX\<close>
  calls on a constructed cache runs to its end; the list caches have no frequencies
  and run every sequence.
\<close>

lemma LFU_put_defined:
  assumes wf: "wf_LFU s" and b: "\<forall>f \<in> dom (m_freqHashmap s). f \<le> b" and b0: "0 \<le> b"
    and lt: "b < INT_MAX"
  shows "\<exists>s'. LFU_put key val s = Some s' \<and> (\<forall>f \<in> dom (m_freqHashmap s'). f \<le> b + 1)"
proof (cases "m_capacity s = 0")
  case True
  then show ?thesis using b by (force simp: LFU_put_zero)
next
  case False
  show ?thesis
  proof (cases "m_hashmap_LFU s key")
    case None
    have "\<exists>s'. LFU_put key val s = Some s'"
    proof (cases "hashmap_size (m_hashmap_LFU s) = m_capacity s")
      case True
      from LFU_put_new_full [OF wf False None True, of val] show ?thesis by blast
    next
      case f: False
      from LFU_put_new_room [OF wf False None f, of val] show ?thesis by blast
    qed
    then obtain s' where s': "LFU_put key val s = Some s'" by blast
    have "g \<le> b + 1" if "g \<in> dom (m_freqHashmap s')" for g
    proof -
      from that LFU_put_new_dom [OF None s'] have "g = 1 \<or> g \<in> dom (m_freqHashmap s)" by blast
      then show ?thesis
      proof
        assume "g = 1"
        then show ?thesis using b0 by simp
      next
        assume "g \<in> dom (m_freqHashmap s)"
        with b have "g \<le> b" by blast
        then show ?thesis by simp
      qed
    qed
    then have "\<forall>f \<in> dom (m_freqHashmap s'). f \<le> b + 1" by blast
    with s' show ?thesis by blast
  next
    case (Some it)
    obtain f a where it: "it = (f, a)" by (cases it)
    have "f \<in> dom (m_freqHashmap s)" using LFU_frequency_in_dom [OF wf] Some it by simp
    then have fb: "f \<le> b" using b by blast
    then have "f < INT_MAX" using lt by simp
    from LFU_put_existing [OF wf False _ this, of key a val] Some it obtain s' where
      s': "LFU_put key val s = Some s'"
        "dom (m_freqHashmap s') \<subseteq> insert (f + 1) (dom (m_freqHashmap s))" by auto
    have "g \<le> b + 1" if "g \<in> dom (m_freqHashmap s')" for g
    proof -
      from that s'(2) have "g = f + 1 \<or> g \<in> dom (m_freqHashmap s)" by blast
      then show ?thesis
      proof
        assume "g = f + 1"
        then show ?thesis using fb by simp
      next
        assume "g \<in> dom (m_freqHashmap s)"
        with b have "g \<le> b" by blast
        then show ?thesis by simp
      qed
    qed
    then have "\<forall>f \<in> dom (m_freqHashmap s'). f \<le> b + 1" by blast
    with s' show ?thesis by blast
  qed
qed

lemma LFU_get_defined:
  assumes wf: "wf_LFU s" and b: "\<forall>f \<in> dom (m_freqHashmap s). f \<le> b" and lt: "b < INT_MAX"
  shows "\<exists>r s'. LFU_get key s = Some (r, s') \<and> (\<forall>f \<in> dom (m_freqHashmap s'). f \<le> b + 1)"
proof (cases "m_hashmap_LFU s key")
  case None
  then show ?thesis using b by (force simp: LFU_get_absent)
next
  case (Some it)
  obtain f a where it: "it = (f, a)" by (cases it)
  have "f \<in> dom (m_freqHashmap s)" using LFU_frequency_in_dom [OF wf] Some it by simp
  then have fb: "f \<le> b" using b by blast
  then have "f < INT_MAX" using lt by simp
  from LFU_get_present [OF wf _ this, of key a] Some it obtain r s' where
    s': "LFU_get key s = Some (r, s')"
      "dom (m_freqHashmap s') \<subseteq> insert (f + 1) (dom (m_freqHashmap s))" by auto
  have "g \<le> b + 1" if "g \<in> dom (m_freqHashmap s')" for g
  proof -
    from that s'(2) have "g = f + 1 \<or> g \<in> dom (m_freqHashmap s)" by blast
    then show ?thesis
    proof
      assume "g = f + 1"
      then show ?thesis using fb by simp
    next
      assume "g \<in> dom (m_freqHashmap s)"
      with b have "g \<le> b" by blast
      then show ?thesis by simp
    qed
  qed
  then have "\<forall>f \<in> dom (m_freqHashmap s'). f \<le> b + 1" by blast
  with s' show ?thesis by blast
qed

lemma put_defined:
  assumes "wf_cache c" "freq_bounded b c" "0 \<le> b" "policy_of c = LFU_policy \<longrightarrow> b < INT_MAX"
  shows "\<exists>c'. put key val c = Some c' \<and> freq_bounded (b + 1) c'"
proof (cases c)
  case (FILO s)
  with assms FILO_put_wf [of s key val] show ?thesis by auto
next
  case (FIFO s)
  with assms FIFO_put_wf [of s key val] show ?thesis by auto
next
  case (LRU s)
  with assms LRU_put_wf [of s key val] show ?thesis by auto
next
  case (LFU s)
  with assms LFU_put_defined [of s b key val] show ?thesis by auto
qed

lemma get_defined:
  assumes "wf_cache c" "freq_bounded b c" "policy_of c = LFU_policy \<longrightarrow> b < INT_MAX"
  shows "\<exists>r c'. get key c = Some (r, c') \<and> freq_bounded (b + 1) c'"
proof (cases c)
  case (FILO s)
  with assms FIFO_get_wf [of s key] show ?thesis by (auto simp: FILO_get_eq)
next
  case (FIFO s)
  with assms FIFO_get_wf [of s key] show ?thesis by auto
next
  case (LRU s)
  with assms LRU_get_wf [of s key] show ?thesis by auto
next
  case (LFU s)
  with assms LFU_get_defined [of s b key] show ?thesis by auto
qed

lemma freq_bounded_clear: "0 \<le> b \<Longrightarrow> freq_bounded b (clear c)"
  by (cases c) (simp_all add: LFU_clear_def)

lemma freq_bounded_set_capacity: "freq_bounded b (set_capacity n c) = freq_bounded b c"
  by (cases c) (simp_all add: setCapacity_def)

lemma freq_bounded_construct: "freq_bounded 0 (construct p n)"
  by (cases p) (simp_all add: LFUCache_def)

lemma run_defined:
  assumes "wf_cache c" "freq_bounded b c" "0 \<le> b"
    "policy_of c = LFU_policy \<longrightarrow> b + int (length calls) \<le> INT_MAX"
  shows "\<exists>rs c'. run calls c = Some (rs, c')"
  using assms
proof (induction calls arbitrary: c b)
  case Nil
  then show ?case by simp
next
  case (Cons call calls)
  have lt: "policy_of c = LFU_policy \<longrightarrow> b < INT_MAX" using Cons.prems(4) by auto
  show ?case
  proof (cases call)
    case (Get key)
    from get_defined [OF Cons.prems(1,2) lt, of key] obtain r c1 where
      c1: "get key c = Some (r, c1)" "freq_bounded (b + 1) c1" by blast
    from wf_get [OF Cons.prems(1) c1(1)] have w: "wf_cache c1" "policy_of c1 = policy_of c"
      by simp_all
    have "policy_of c1 = LFU_policy \<longrightarrow> b + 1 + int (length calls) \<le> INT_MAX"
      using Cons.prems(4) w(2) by auto
    from Cons.IH [OF w(1) c1(2) _ this] Cons.prems(3) obtain rs c' where
      "run calls c1 = Some (rs, c')" by auto
    with c1(1) Get show ?thesis by simp
  next
    case (Put key val)
    from put_defined [OF Cons.prems(1,2,3) lt, of key val] obtain c1 where
      c1: "put key val c = Some c1" "freq_bounded (b + 1) c1" by blast
    from wf_put [OF Cons.prems(1) c1(1)] have w: "wf_cache c1" "policy_of c1 = policy_of c"
      by simp_all
    have "policy_of c1 = LFU_policy \<longrightarrow> b + 1 + int (length calls) \<le> INT_MAX"
      using Cons.prems(4) w(2) by auto
    from Cons.IH [OF w(1) c1(2) _ this] Cons.prems(3) obtain rs c' where
      "run calls c1 = Some (rs, c')" by auto
    with c1(1) Put show ?thesis by simp
  next
    case Clear
    have "policy_of (clear c) = LFU_policy \<longrightarrow> b + int (length calls) \<le> INT_MAX"
      using Cons.prems(4) by (auto simp: policy_of_clear)
    from Cons.IH [OF wf_clear freq_bounded_clear [OF Cons.prems(3)] Cons.prems(3) this] Clear
    show ?thesis by simp
  next
    case (SetCapacity n)
    have "policy_of (set_capacity n c) = LFU_policy \<longrightarrow> b + int (length calls) \<le> INT_MAX"
      using Cons.prems(4) by (auto simp: policy_of_set_capacity)
    from Cons.IH [OF _ _ Cons.prems(3) this] Cons.prems(1,2) SetCapacity
    show ?thesis by (simp add: wf_set_capacity freq_bounded_set_capacity)
  qed
qed

lemma run_construct_defined:
  assumes "p = LFU_policy \<longrightarrow> int (length calls) \<le> INT_MAX"
  shows "\<exists>rs c. run calls (construct p n) = Some (rs, c)"
  using run_defined [OF wf_construct [of p n] freq_bounded_construct [of p n], of calls] assms
  by (simp add: policy_of_construct)

text \<open>One key that is read again and again: every get raises its frequency by one,
  up to \<open>INT_MAX\<close>, where the next get or put is undefined.\<close>

lemma LFU_single_get:
  "f < INT_MAX \<Longrightarrow> LFU_get key (LFU_single key val f) = Some (Inr val, LFU_single key val (f + 1))"
  by (simp add: LFU_single_def LFU_get_def LFU_promote_def deref_bucket_def deref_def erase_def
      bucket_def increment_def emplace_front_def)

lemma LFU_single_put:
  "f < INT_MAX \<Longrightarrow> LFU_put key val' (LFU_single key val f) = Some (LFU_single key val' (f + 1))"
  by (simp add: LFU_single_def LFU_put_def LFU_promote_def deref_bucket_def deref_def erase_def
      bucket_def increment_def emplace_front_def getCapacity_def)

lemma LFU_single_get_overflow: "\<not> f < INT_MAX \<Longrightarrow> LFU_get key (LFU_single key val f) = None"
  by (simp add: LFU_single_def LFU_get_def LFU_promote_overflow deref_bucket_def deref_def)

lemma LFU_single_put_overflow:
  "\<not> f < INT_MAX \<Longrightarrow> LFU_put key val' (LFU_single key val f) = None"
  by (simp add: LFU_single_def LFU_put_def LFU_promote_overflow deref_bucket_def deref_def
      getCapacity_def)

lemma LFU_first_put: "LFU_put key val (LFUCache (Suc 0)) = Some (LFU_single key val 1)"
  by (simp add: LFU_single_def LFU_put_def LFUCache_def bucket_def emplace_front_def
      getCapacity_def hashmap_size_def)

lemma run_gets_single:
  "f + int m \<le> INT_MAX \<Longrightarrow>
   run (replicate m (Get key)) (LFU (LFU_single key val f))
     = Some (replicate m (Inr val), LFU (LFU_single key val (f + int m)))"
proof (induction m arbitrary: f)
  case 0
  then show ?case by simp
next
  case (Suc m)
  then have "f < INT_MAX" "f + 1 + int m \<le> INT_MAX" by simp_all
  then show ?case using Suc.IH [of "f + 1"] by (simp add: LFU_single_get add.assoc)
qed

lemma run_append:
  "run xs c = Some (rs, c') \<Longrightarrow> run (xs @ ys) c = map_option (apfst ((@) rs)) (run ys c')"
proof (induction xs arbitrary: c rs)
  case Nil
  then show ?case by (cases "run ys c") auto
next
  case (Cons x xs)
  show ?case
  proof (cases x)
    case (Get key)
    with Cons.prems obtain r c1 rs1 where
      c1: "get key c = Some (r, c1)" "run xs c1 = Some (rs1, c')" "rs = r # rs1"
      by (auto simp: bind_eq_Some_conv)
    from Cons.IH [OF c1(2)] c1(1,3) Get show ?thesis by (cases "run ys c'") auto
  next
    case (Put key val)
    with Cons.prems obtain c1 where
      c1: "put key val c = Some c1" "run xs c1 = Some (rs, c')"
      by (auto simp: bind_eq_Some_conv)
    from Cons.IH [OF c1(2)] c1(1) Put show ?thesis by simp
  next
    case Clear
    with Cons.prems Cons.IH [of "clear c" rs] show ?thesis by simp
  next
    case (SetCapacity n)
    with Cons.prems Cons.IH [of "set_capacity n c" rs] show ?thesis by simp
  qed
qed

lemma run_put_gets:
  "1 + int m \<le> INT_MAX \<Longrightarrow>
   run (Put key val # replicate m (Get key)) (construct LFU_policy 1)
     = Some (replicate m (Inr val), LFU (LFU_single key val (1 + int m)))"
  by (simp add: LFU_first_put run_gets_single)

lemma size_of_card: "size_of c = card (keys_of c)"
  by (cases c) (simp_all add: hashmap_size_def)

lemma finite_keys_of: "wf_cache c \<Longrightarrow> finite (keys_of c)"
  by (cases c) (auto simp: wf_List_def wf_LFU_def wfL_finite wfF_finite)

lemma put_zero: "capacity_of c = 0 \<Longrightarrow> put key val c = Some c"
  by (cases c) (simp_all add: getCapacity_def FILO_put_zero FIFO_put_zero LRU_put_zero LFU_put_zero)

lemma map_of_keys: "map_of es key = Some val \<Longrightarrow> key \<in> fst ` set es"
  by (metis map_of_eq_None_iff option.distinct(1))

lemma put_stores:
  assumes "wf_cache c" "capacity_of c \<noteq> 0" "frequency_of key c < INT_MAX"
  shows "\<exists>c1. put key val c = Some c1 \<and> wf_cache c1 \<and> capacity_of c1 = capacity_of c
           \<and> key \<in> keys_of c1 \<and> frequency_of key c1 \<le> frequency_of key c + 1
           \<and> (frequency_of key c1 < INT_MAX \<longrightarrow> (\<exists>c2. get key c1 = Some (Inr val, c2)))"
proof (cases c)
  case (FILO s)
  with assms FILO_put_stores [of s key val] obtain s' where
    s': "FILO_put key val s = Some s'" "wf_List s'" "m_capacity s' = m_capacity s"
      "map_of (entries s') key = Some val" by (auto simp: getCapacity_def)
  then show ?thesis using FILO List_get_stored(2) [OF s'(2,4)] wf_List_keys [OF s'(2)] map_of_keys [OF s'(4)]
    by (simp add: getCapacity_def)
next
  case (FIFO s)
  with assms FIFO_put_stores [of s key val] obtain s' where
    s': "FIFO_put key val s = Some s'" "wf_List s'" "m_capacity s' = m_capacity s"
      "map_of (entries s') key = Some val" by (auto simp: getCapacity_def)
  then show ?thesis using FIFO List_get_stored(1) [OF s'(2,4)] wf_List_keys [OF s'(2)] map_of_keys [OF s'(4)]
    by (simp add: getCapacity_def)
next
  case (LRU s)
  with assms LRU_put_stores [of s key val] obtain s' where
    s': "LRU_put key val s = Some s'" "wf_List s'" "m_capacity s' = m_capacity s"
      "map_of (entries s') key = Some val" by (auto simp: getCapacity_def)
  then show ?thesis using LRU List_get_stored(3) [OF s'(2,4)] wf_List_keys [OF s'(2)] map_of_keys [OF s'(4)]
    by (auto simp: getCapacity_def)
next
  case (LFU s)
  let ?f = "LFU_frequency key s + 1"
  from LFU assms LFU_put_stores [of s key val] obtain s' a where
    s': "LFU_put key val s = Some s'" "wf_LFU s'" "m_capacity s' = m_capacity s"
      "m_hashmap_LFU s' key = Some (?f, a)"
      "node_at (m_freqHashmap s') ?f a \<lparr>m_key = key, m_value = val, m_freq = ?f\<rparr>"
    by (auto simp: getCapacity_def)
  have f': "LFU_frequency key s' = ?f" by (rule LFU_frequency_present [OF s'(2,4)])
  have "\<exists>s''. LFU_get key s' = Some (Inr val, s'')" if "?f < INT_MAX"
    using LFU_get_stored [OF s'(2,4,5) that] by auto
  then show ?thesis using LFU s'(1-4) f' by (auto simp: getCapacity_def)
qed

lemma put_existing_keys:
  assumes "wf_cache c" "key \<in> keys_of c" "frequency_of key c < INT_MAX"
  shows "\<exists>c1. put key val c = Some c1 \<and> keys_of c1 = keys_of c"
proof (cases "capacity_of c = 0")
  case True
  then show ?thesis by (simp add: put_zero)
next
  case False
  show ?thesis
  proof (cases c)
    case (FILO s)
    with assms obtain it where "m_hashmap s key = Some it" by auto
    with FILO assms False FILO_put_existing [of s key it val] show ?thesis
      by (auto simp: getCapacity_def)
  next
    case (FIFO s)
    with assms obtain it where "m_hashmap s key = Some it" by auto
    with FIFO assms False FIFO_put_existing [of s key it val] show ?thesis
      by (auto simp: getCapacity_def)
  next
    case (LRU s)
    with assms obtain it where "m_hashmap s key = Some it" by auto
    with LRU assms False LRU_put_existing [of s key it val] show ?thesis
      by (auto simp: getCapacity_def)
  next
    case (LFU s)
    with assms obtain f a where k: "m_hashmap_LFU s key = Some (f, a)" by auto
    have "LFU_frequency key s = f" using LFU_frequency_present [OF _ k] LFU assms(1) by simp
    with k LFU assms False LFU_put_existing [of s key f a val] show ?thesis
      by (auto simp: getCapacity_def)
  qed
qed

lemma put_new_room:
  assumes "wf_cache c" "capacity_of c \<noteq> 0" "key \<notin> keys_of c" "size_of c \<noteq> capacity_of c"
  shows "\<exists>c1. put key val c = Some c1 \<and> wf_cache c1 \<and> capacity_of c1 = capacity_of c
           \<and> keys_of c1 = insert key (keys_of c)"
proof (cases c)
  case (FILO s)
  with assms have "m_hashmap s key = None" by auto
  with FILO assms FILO_put_new_room [of s key val] obtain s' where
    s': "FILO_put key val s = Some s'" "wf_List s'" "m_capacity s' = m_capacity s"
      "entries s' = entries s @ [(key, val)]" by (auto simp: getCapacity_def)
  then show ?thesis using FILO assms(1) wf_List_keys [of s] wf_List_keys [of s']
    by (simp add: getCapacity_def)
next
  case (FIFO s)
  with assms have "m_hashmap s key = None" by auto
  with FIFO assms FIFO_put_new_room [of s key val] obtain s' where
    s': "FIFO_put key val s = Some s'" "wf_List s'" "m_capacity s' = m_capacity s"
      "entries s' = entries s @ [(key, val)]" by (auto simp: getCapacity_def)
  then show ?thesis using FIFO assms(1) wf_List_keys [of s] wf_List_keys [of s']
    by (simp add: getCapacity_def)
next
  case (LRU s)
  with assms have "m_hashmap s key = None" by auto
  with LRU assms LRU_put_new_room [of s key val] obtain s' where
    s': "LRU_put key val s = Some s'" "wf_List s'" "m_capacity s' = m_capacity s"
      "entries s' = (key, val) # entries s" by (auto simp: getCapacity_def)
  then show ?thesis using LRU assms(1) wf_List_keys [of s] wf_List_keys [of s']
    by (simp add: getCapacity_def)
next
  case (LFU s)
  with assms have "m_hashmap_LFU s key = None" by auto
  with LFU assms LFU_put_new_room [of s key val] show ?thesis
    by (auto simp: getCapacity_def)
qed

lemma get_KeyNotFound:
  "get key c = Some (Inl KeyNotFound, c') \<Longrightarrow> c' = c \<and> key \<notin> keys_of c"
proof (cases c)
  case (FILO s)
  assume "get key c = Some (Inl KeyNotFound, c')"
  with FILO show ?thesis by (auto simp: FILO_get_def split: option.splits bind_splits)
next
  case (FIFO s)
  assume "get key c = Some (Inl KeyNotFound, c')"
  with FIFO show ?thesis by (auto simp: FIFO_get_def split: option.splits bind_splits)
next
  case (LRU s)
  assume "get key c = Some (Inl KeyNotFound, c')"
  with LRU show ?thesis by (auto simp: LRU_get_def Let_def split: option.splits bind_splits)
next
  case (LFU s)
  assume "get key c = Some (Inl KeyNotFound, c')"
  with LFU show ?thesis by (auto simp: LFU_get_def Let_def split: option.splits bind_splits)
qed

lemma get_absent:
  assumes "key \<notin> keys_of c"
  shows "get key c = Some (Inl KeyNotFound, c)"
proof (cases c)
  case (LFU s)
  with assms have "m_hashmap_LFU s key = None" by (simp only: keys_of.simps) blast
  with LFU show ?thesis by (simp add: LFU_get_absent)
qed (use assms in \<open>simp_all add: FIFO_get_absent FILO_get_eq LRU_get_absent domIff\<close>)

section \<open>The scenarios of the test file\<close>

lemmas list_ops =
  emplace_front_def emplace_back_def list_begin_def list_prev_end_def list_front_def
  list_back_def pop_front_def pop_back_def deref_def erase_def assign_second_def

lemmas cache_ops =
  getCapacity_def setCapacity_def hashmap_size_def ListCache_def FILOCache_def FIFOCache_def
  LRUCache_def LFUCache_def FILO_get_def FIFO_get_def LRU_get_def LFU_get_def FILO_put_def
  FIFO_put_def LRU_put_def LFU_put_def LFU_promote_def List_clear_def LFU_clear_def
  bucket_def deref_bucket_def increment_def INT_MAX_def


section \<open>Round trips\<close>

text \<open>
  Claim C7, as the code has it. The claim reads: for every policy, every cache state
  and every key, put(k, v) followed immediately by get(k) returns v. With capacity 0
  \<open>put\<close> returns at once and stores nothing, so the round trip needs a capacity that is
  not 0. On the LFU cache the put and the get each increment the \<open>int\<close> frequency of
  the key, which is undefined once the frequency is \<open>INT_MAX\<close>. Amended: for every
  policy and every cache reached from a constructor by calls of get, put, clear and
  setCapacity, if the capacity is not 0 and, on the LFU cache, the frequency of k can
  be incremented twice (it is at most \<open>INT_MAX - 2\<close>), then put(k, v) followed
  immediately by get(k) returns v.
\<close>

theorem put_then_get:
  assumes "run calls (construct p n) = Some (rs, c)" and "capacity_of c \<noteq> 0"
    and "frequency_of key c + 2 \<le> INT_MAX"
  shows "\<exists>c1 c2. put key val c = Some c1 \<and> get key c1 = Some (Inr val, c2)"
proof -
  have wf: "wf_cache c" using assms(1) by (rule reachable_wf)
  have "frequency_of key c < INT_MAX" using assms(3) by simp
  from put_stores [OF wf assms(2) this, of val] obtain c1 where
    c1: "put key val c = Some c1" "frequency_of key c1 \<le> frequency_of key c + 1"
      "frequency_of key c1 < INT_MAX \<longrightarrow> (\<exists>c2. get key c1 = Some (Inr val, c2))"
    by blast
  from c1(2) assms(3) have "frequency_of key c1 < INT_MAX" by simp
  with c1 show ?thesis by blast
qed

text \<open>An instance: an LFU cache of capacity 2 that holds two keys, key 1 with
  frequency 2; the put overwrites the value of key 1 and the get returns it.\<close>

theorem put_then_get_witness:
  "\<exists>c. run [Put 1 10, Put 2 20, Get 1] (construct LFU_policy 2 :: (int, int) cache)
          = Some ([Inr 10], c)
      \<and> capacity_of c = 2 \<and> frequency_of 1 c = 2
      \<and> (\<exists>c1 c2. put 1 30 c = Some c1 \<and> get 1 c1 = Some (Inr 30, c2))"
proof -
  have "\<exists>c. run [Put 1 10, Put 2 20, Get 1] (construct LFU_policy 2 :: (int, int) cache)
          = Some ([Inr 10], c) \<and> capacity_of c = 2 \<and> frequency_of 1 c = 2"
    by (simp add: cache_ops list_ops LFU_frequency_def)
  then obtain c where
    r: "run [Put 1 10, Put 2 20, Get 1] (construct LFU_policy 2 :: (int, int) cache)
          = Some ([Inr 10], c)" and c: "capacity_of c = 2" "frequency_of 1 c = 2"
    by blast
  from c have "capacity_of c \<noteq> 0" "frequency_of 1 c + 2 \<le> INT_MAX"
    by (simp_all add: INT_MAX_def)
  from put_then_get [OF r this, of 30] r c show ?thesis by blast
qed

text \<open>
  Claim C7 as stated fails with capacity 0. On a cache constructed with capacity 0,
  put(0, 0); get(0) throws KeyNotFound and leaves the cache as constructed (the test
  "LFU Test 2" of the repository). And on a FIFO cache that holds key 1 with value 1,
  after setCapacity(0) the call put(1, 5) changes nothing and get(1) returns 1, not
  5, although key 1 was never evicted. It also fails where the frequency overflows:
  on an LFU cache of capacity 1, put(7, 5) and 2147483646 calls of get(7), which all
  return 5, leave key 7 with frequency \<open>INT_MAX\<close>, and a further put(7, 9); get(7) has
  no defined outcome.
\<close>

theorem put_then_get_capacity_zero:
  "run [Put 0 0, Get 0] (construct LFU_policy 0 :: (int, int) cache)
     = Some ([Inl KeyNotFound], construct LFU_policy 0)
   \<and> map_option fst (run [Put 1 1, SetCapacity 0, Put 1 5, Get 1]
        (construct FIFO_policy 2 :: (int, int) cache)) = Some [Inr 1]
   \<and> map_option fst (run (Put 7 5 # replicate 2147483646 (Get 7))
        (construct LFU_policy 1 :: (int, int) cache)) = Some (replicate 2147483646 (Inr 5))
   \<and> run ((Put 7 5 # replicate 2147483646 (Get 7)) @ [Put 7 9, Get 7])
        (construct LFU_policy 1 :: (int, int) cache) = None"
proof -
  have 1: "run [Put 0 0, Get 0] (construct LFU_policy 0 :: (int, int) cache)
     = Some ([Inl KeyNotFound], construct LFU_policy 0)"
    by (simp add: cache_ops list_ops)
  have 2: "map_option fst (run [Put 1 1, SetCapacity 0, Put 1 5, Get 1]
        (construct FIFO_policy 2 :: (int, int) cache)) = Some [Inr 1]"
    by (simp add: cache_ops list_ops)
  have r: "run (Put 7 5 # replicate 2147483646 (Get 7)) (construct LFU_policy 1 :: (int, int) cache)
      = Some (replicate 2147483646 (Inr 5), LFU (LFU_single 7 5 INT_MAX))"
    using run_put_gets [of 2147483646 "7::int" "5::int"] by (simp add: INT_MAX_def)
  have 4: "run ((Put 7 5 # replicate 2147483646 (Get 7)) @ [Put 7 9, Get 7])
        (construct LFU_policy 1 :: (int, int) cache) = None"
    unfolding run_append [OF r] by (simp add: LFU_single_put_overflow)
  from 1 2 r 4 show ?thesis by simp
qed

text \<open>
  Claim C8, as the code has it. The claim reads: for every policy, every cache state,
  every key k and values v1, v2, the sequence put(k, v1); put(k, v2); get(k) returns
  v2, and the size after the second put equals the size before it. That get(k)
  returns v2 needs a capacity that is not 0, and on the LFU cache the three calls each
  increment the \<open>int\<close> frequency of the key, which is undefined once the frequency is
  \<open>INT_MAX\<close>. Amended: for every policy and every cache reached from a constructor by
  calls of get, put, clear and setCapacity, if the capacity is 0 or, on the LFU cache,
  the frequency of k can be incremented three times (it is at most \<open>INT_MAX - 3\<close>),
  then after put(k, v1); put(k, v2) the size equals the size before the second put,
  and if the capacity is not 0 then get(k) returns v2.
\<close>

theorem overwrite_twice:
  assumes "run calls (construct p n) = Some (rs, c)"
    and "capacity_of c \<noteq> 0 \<longrightarrow> frequency_of key c + 3 \<le> INT_MAX"
  shows "\<exists>c1 c2. put key v1 c = Some c1 \<and> put key v2 c1 = Some c2 \<and> size_of c2 = size_of c1
           \<and> (capacity_of c \<noteq> 0 \<longrightarrow> (\<exists>c3. get key c2 = Some (Inr v2, c3)))"
proof (cases "capacity_of c = 0")
  case True
  then show ?thesis by (simp add: put_zero)
next
  case False
  have wf: "wf_cache c" using assms(1) by (rule reachable_wf)
  have fb: "frequency_of key c + 3 \<le> INT_MAX" using assms(2) False by simp
  then have f0: "frequency_of key c < INT_MAX" by simp
  from put_stores [OF wf False f0, of v1] obtain c1 where
    c1: "put key v1 c = Some c1" "wf_cache c1" "capacity_of c1 = capacity_of c" "key \<in> keys_of c1"
      "frequency_of key c1 \<le> frequency_of key c + 1"
    by blast
  have f1: "frequency_of key c1 < INT_MAX" using c1(5) fb by simp
  from put_stores [OF c1(2) _ f1, of v2] c1(3) False obtain c2 where
    c2: "put key v2 c1 = Some c2" "frequency_of key c2 \<le> frequency_of key c1 + 1"
      "frequency_of key c2 < INT_MAX \<longrightarrow> (\<exists>c3. get key c2 = Some (Inr v2, c3))"
    by auto
  have "frequency_of key c2 < INT_MAX" using c2(2) c1(5) fb by simp
  with c2(3) have g: "\<exists>c3. get key c2 = Some (Inr v2, c3)" by blast
  from put_existing_keys [OF c1(2,4) f1, of v2] c2(1) have "keys_of c2 = keys_of c1" by auto
  then have "size_of c2 = size_of c1" by (simp add: size_of_card)
  with c1(1) c2(1) g show ?thesis by blast
qed

text \<open>An instance: an LFU cache of capacity 2 that is full and holds key 2 with
  frequency 1.\<close>

theorem overwrite_twice_witness:
  "\<exists>c. run [Put 1 10, Put 2 20] (construct LFU_policy 2 :: (int, int) cache) = Some ([], c)
      \<and> capacity_of c = 2 \<and> frequency_of 2 c = 1
      \<and> (\<exists>c1 c2 c3. put 2 21 c = Some c1 \<and> put 2 22 c1 = Some c2 \<and> size_of c2 = size_of c1
            \<and> get 2 c2 = Some (Inr 22, c3))"
proof -
  have "\<exists>c. run [Put 1 10, Put 2 20] (construct LFU_policy 2 :: (int, int) cache) = Some ([], c)
          \<and> capacity_of c = 2 \<and> frequency_of 2 c = 1"
    by (simp add: cache_ops list_ops LFU_frequency_def)
  then obtain c where
    r: "run [Put 1 10, Put 2 20] (construct LFU_policy 2 :: (int, int) cache) = Some ([], c)"
    and c: "capacity_of c = 2" "frequency_of 2 c = 1"
    by blast
  from c have f: "capacity_of c \<noteq> 0 \<longrightarrow> frequency_of 2 c + 3 \<le> INT_MAX"
    by (simp add: INT_MAX_def)
  from overwrite_twice [OF r f, of 21 22] r c show ?thesis by auto
qed

text \<open>
  Claim C8 as stated fails with capacity 0, for each of the four policies: after
  put(0, 1); put(0, 2) on a cache constructed with capacity 0, get(0) throws
  KeyNotFound. It also fails where the frequency overflows: on an LFU cache of
  capacity 1, put(7, 5) and 2147483645 calls of get(7), which all return 5, leave
  key 7 with frequency \<open>INT_MAX - 1\<close>, and a further put(7, 1); put(7, 2) has no defined
  outcome.
\<close>

theorem overwrite_twice_capacity_zero:
  "map_option fst (run [Put 0 1, Put 0 2, Get 0] (construct FILO_policy 0 :: (int, int) cache))
     = Some [Inl KeyNotFound]
   \<and> map_option fst (run [Put 0 1, Put 0 2, Get 0] (construct FIFO_policy 0 :: (int, int) cache))
     = Some [Inl KeyNotFound]
   \<and> map_option fst (run [Put 0 1, Put 0 2, Get 0] (construct LRU_policy 0 :: (int, int) cache))
     = Some [Inl KeyNotFound]
   \<and> map_option fst (run [Put 0 1, Put 0 2, Get 0] (construct LFU_policy 0 :: (int, int) cache))
     = Some [Inl KeyNotFound]
   \<and> map_option fst (run (Put 7 5 # replicate 2147483645 (Get 7))
        (construct LFU_policy 1 :: (int, int) cache)) = Some (replicate 2147483645 (Inr 5))
   \<and> run ((Put 7 5 # replicate 2147483645 (Get 7)) @ [Put 7 1, Put 7 2])
        (construct LFU_policy 1 :: (int, int) cache) = None"
proof -
  have 1: "map_option fst (run [Put 0 1, Put 0 2, Get 0] (construct FILO_policy 0 :: (int, int) cache))
       = Some [Inl KeyNotFound]
     \<and> map_option fst (run [Put 0 1, Put 0 2, Get 0] (construct FIFO_policy 0 :: (int, int) cache))
       = Some [Inl KeyNotFound]
     \<and> map_option fst (run [Put 0 1, Put 0 2, Get 0] (construct LRU_policy 0 :: (int, int) cache))
       = Some [Inl KeyNotFound]
     \<and> map_option fst (run [Put 0 1, Put 0 2, Get 0] (construct LFU_policy 0 :: (int, int) cache))
       = Some [Inl KeyNotFound]"
    by (simp add: cache_ops list_ops)
  have r: "run (Put 7 5 # replicate 2147483645 (Get 7)) (construct LFU_policy 1 :: (int, int) cache)
      = Some (replicate 2147483645 (Inr 5), LFU (LFU_single 7 5 (INT_MAX - 1)))"
    using run_put_gets [of 2147483645 "7::int" "5::int"] by (simp add: INT_MAX_def)
  have "LFU_put 7 1 (LFU_single (7::int) (5::int) (INT_MAX - 1)) = Some (LFU_single 7 1 INT_MAX)"
    using LFU_single_put [of "INT_MAX - 1" "7::int" "1::int" "5::int"] by simp
  then have 3: "run ((Put 7 5 # replicate 2147483645 (Get 7)) @ [Put 7 1, Put 7 2])
        (construct LFU_policy 1 :: (int, int) cache) = None"
    unfolding run_append [OF r] by (simp add: LFU_single_put_overflow)
  from 1 r 3 show ?thesis by simp
qed

section \<open>A failed \<open>get\<close>\<close>

text \<open>
  Claim C10. For every policy and every cache state, if get(k) fails with KeyNotFound
  (k is absent), the call leaves the whole state as it was: the stored keys and
  values, their order, the frequencies, \<open>m_minimalFreq\<close> and the capacity. The
  theorem says that get on an absent key returns KeyNotFound with the very same
  state, and that whenever get returns KeyNotFound the state it returns is the state
  it was given and the key is absent.
\<close>

theorem get_KeyNotFound_unchanged:
  "(key \<notin> keys_of c \<longrightarrow> get key c = Some (Inl KeyNotFound, c))
   \<and> (\<forall>c'. get key c = Some (Inl KeyNotFound, c') \<longrightarrow> c' = c \<and> key \<notin> keys_of c)"
  using get_absent [of key c] get_KeyNotFound [of key c] by blast

text \<open>An instance: an LFU cache that holds key 1 only, asked for key 7.\<close>

theorem get_KeyNotFound_unchanged_witness:
  "7 \<notin> keys_of (LFU \<lparr>m_capacity = 2, m_minimalFreq = 1, m_hashmap_LFU = [1 \<mapsto> (1, 0)],
        m_freqHashmap = [1 \<mapsto> [(0, \<lparr>m_key = 1, m_value = 5, m_freq = 1\<rparr>)]]\<rparr> :: (int, int) cache)
   \<and> get 7 (LFU \<lparr>m_capacity = 2, m_minimalFreq = 1, m_hashmap_LFU = [1 \<mapsto> (1, 0)],
        m_freqHashmap = [1 \<mapsto> [(0, \<lparr>m_key = 1, m_value = 5, m_freq = 1\<rparr>)]]\<rparr> :: (int, int) cache)
     = Some (Inl KeyNotFound, (LFU \<lparr>m_capacity = 2, m_minimalFreq = 1, m_hashmap_LFU = [1 \<mapsto> (1, 0)],
        m_freqHashmap = [1 \<mapsto> [(0, \<lparr>m_key = 1, m_value = 5, m_freq = 1\<rparr>)]]\<rparr> :: (int, int) cache))"
proof -
  let ?c = "(LFU \<lparr>m_capacity = 2, m_minimalFreq = 1, m_hashmap_LFU = [1 \<mapsto> (1, 0)],
        m_freqHashmap = [1 \<mapsto> [(0, \<lparr>m_key = 1, m_value = 5, m_freq = 1\<rparr>)]]\<rparr> :: (int, int) cache)"
  have k: "7 \<notin> keys_of ?c" by simp
  from get_KeyNotFound_unchanged [of 7 ?c]
  have "7 \<notin> keys_of ?c \<longrightarrow> get 7 ?c = Some (Inl KeyNotFound, ?c)" by (rule conjunct1)
  with k show ?thesis by blast
qed

section \<open>Capacity 0\<close>

lemma run_capacity_zero:
  assumes "\<forall>n. SetCapacity n \<notin> set calls"
  shows "\<exists>rs. run calls (construct p 0) = Some (rs, construct p 0)
           \<and> (\<forall>r \<in> set rs. r = Inl KeyNotFound)"
  using assms
proof (induction calls)
  case Nil
  then show ?case by simp
next
  case (Cons call calls)
  then obtain rs where rs: "run calls (construct p 0) = Some (rs, construct p 0)"
    "\<forall>r \<in> set rs. r = Inl KeyNotFound" by auto
  have k: "keys_of (construct p 0 :: ('a, 'b) cache) = {}"
    by (cases p) (simp_all add: cache_ops)
  have z: "capacity_of (construct p 0 :: ('a, 'b) cache) = 0"
    by (cases p) (simp_all add: cache_ops)
  have cl: "clear (construct p 0 :: ('a, 'b) cache) = construct p 0"
    by (cases p) (simp_all add: cache_ops)
  show ?case
  proof (cases call)
    case (Get key)
    have "get key (construct p 0 :: ('a, 'b) cache) = Some (Inl KeyNotFound, construct p 0)"
      using k by (simp add: get_absent)
    with Get rs show ?thesis by simp
  next
    case (Put key val)
    with rs show ?thesis by (simp add: put_zero [OF z])
  next
    case Clear
    with rs show ?thesis by (simp add: cl)
  next
    case (SetCapacity n)
    with Cons.prems show ?thesis by auto
  qed
qed

text \<open>
  Claim C9. For every policy, a cache constructed with capacity 0, whose capacity is
  never changed, stores no key after any sequence of get, put and clear calls: its
  size is 0, every get of the sequence fails with KeyNotFound, and get on any key
  fails with KeyNotFound afterwards.
\<close>

theorem capacity_zero_stores_nothing:
  assumes "\<forall>n. SetCapacity n \<notin> set calls"
  shows "\<exists>rs c. run calls (construct p 0) = Some (rs, c) \<and> size_of c = 0 \<and> keys_of c = {}
           \<and> (\<forall>key. get key c = Some (Inl KeyNotFound, c))
           \<and> (\<forall>r \<in> set rs. r = Inl KeyNotFound)"
proof -
  from run_capacity_zero [OF assms, of p] obtain rs where
    rs: "run calls (construct p 0) = Some (rs, construct p 0)" "\<forall>r \<in> set rs. r = Inl KeyNotFound"
    by blast
  have k: "keys_of (construct p 0 :: ('a, 'b) cache) = {}"
    by (cases p) (simp_all add: cache_ops)
  then have "size_of (construct p 0 :: ('a, 'b) cache) = 0" by (simp add: size_of_card)
  moreover have "\<forall>key. get key (construct p 0 :: ('a, 'b) cache) = Some (Inl KeyNotFound, construct p 0)"
    using k by (simp add: get_absent)
  ultimately show ?thesis using rs k by blast
qed

text \<open>An instance: five calls on an LFU cache of capacity 0.\<close>

theorem capacity_zero_stores_nothing_witness:
  "(\<forall>n. SetCapacity n \<notin> set [Put (0::int) (0::int), Get 0, Clear, Put 1 5, Get 1])
   \<and> (\<exists>c. run [Put (0::int) (0::int), Get 0, Clear, Put 1 5, Get 1] (construct LFU_policy 0)
             = Some ([Inl KeyNotFound, Inl KeyNotFound], c)
          \<and> size_of c = 0 \<and> get 1 c = Some (Inl KeyNotFound, c))"
proof -
  have h: "\<forall>n. SetCapacity n \<notin> set [Put (0::int) (0::int), Get 0, Clear, Put 1 5, Get 1]"
    by simp
  have "map_option fst (run [Put (0::int) (0::int), Get 0, Clear, Put 1 5, Get 1]
      (construct LFU_policy 0)) = Some [Inl KeyNotFound, Inl KeyNotFound]"
    by (simp add: cache_ops list_ops)
  moreover from capacity_zero_stores_nothing [OF h, of LFU_policy] obtain rs c where
    "run [Put (0::int) (0::int), Get 0, Clear, Put 1 5, Get 1] (construct LFU_policy 0) = Some (rs, c)"
    "size_of c = 0" "get 1 c = Some (Inl KeyNotFound, c)"
    by blast
  ultimately have "\<exists>c. run [Put (0::int) (0::int), Get 0, Clear, Put 1 5, Get 1] (construct LFU_policy 0)
             = Some ([Inl KeyNotFound, Inl KeyNotFound], c)
          \<and> size_of c = 0 \<and> get 1 c = Some (Inl KeyNotFound, c)"
    by simp
  with h show ?thesis by (rule conjI)
qed

section \<open>A capacity set below the size\<close>

text \<open>
  Claim C1, as the code has it. The claim reads: when \<open>setCapacity\<close> left the size above
  the capacity, the next put of a new key forces an eviction, after which the size is
  at most the capacity again. Every \<open>put\<close> evicts only when the size equals the
  capacity, so above the capacity nothing is evicted. Amended: for every policy and
  every reached cache whose size exceeds its capacity, a put of a new key evicts
  nothing: with capacity 0 it changes nothing, otherwise it adds the key and the size
  grows by one; in both cases the size still exceeds the capacity afterwards.
\<close>

theorem shrink_not_enforced:
  assumes "run calls (construct p n) = Some (rs, c)" and "capacity_of c < size_of c"
    and "key \<notin> keys_of c"
  shows "\<exists>c'. put key val c = Some c' \<and> capacity_of c' = capacity_of c
           \<and> keys_of c' = (if capacity_of c = 0 then keys_of c else insert key (keys_of c))
           \<and> size_of c' = (if capacity_of c = 0 then size_of c else Suc (size_of c))
           \<and> capacity_of c' < size_of c'"
proof (cases "capacity_of c = 0")
  case True
  then show ?thesis using assms(2) by (simp add: put_zero)
next
  case False
  have wf: "wf_cache c" using assms(1) by (rule reachable_wf)
  have ne: "size_of c \<noteq> capacity_of c" using assms(2) by simp
  from put_new_room [OF wf False assms(3) ne, of val] obtain c' where
    c': "put key val c = Some c'" "capacity_of c' = capacity_of c"
      "keys_of c' = insert key (keys_of c)" by blast
  have "size_of c' = Suc (size_of c)"
    using c'(3) assms(3) finite_keys_of [OF wf] by (simp add: size_of_card)
  with c' False assms(2) show ?thesis by simp
qed

text \<open>An instance: an LFU cache with three keys whose capacity was set to 2.\<close>

theorem shrink_not_enforced_witness:
  "\<exists>c. run [Put 1 1, Put 2 2, Put 3 3, SetCapacity 2] (construct LFU_policy 3 :: (int, int) cache)
          = Some ([], c)
      \<and> capacity_of c = 2 \<and> size_of c = 3 \<and> keys_of c = {1, 2, 3}
      \<and> (\<exists>c'. put 4 4 c = Some c' \<and> capacity_of c' = 2 \<and> keys_of c' = {1, 2, 3, 4}
            \<and> size_of c' = 4)"
proof -
  have "\<exists>c. run [Put 1 1, Put 2 2, Put 3 3, SetCapacity 2] (construct LFU_policy 3 :: (int, int) cache)
          = Some ([], c) \<and> capacity_of c = 2 \<and> size_of c = 3 \<and> keys_of c = {1, 2, 3}"
    by (simp add: cache_ops list_ops insert_commute)
  then obtain c where
    r: "run [Put 1 1, Put 2 2, Put 3 3, SetCapacity 2] (construct LFU_policy 3 :: (int, int) cache)
          = Some ([], c)"
    and c: "capacity_of c = 2" "size_of c = 3" "keys_of c = {1, 2, 3}"
    by blast
  have lt: "capacity_of c < size_of c" and k: "4 \<notin> keys_of c" using c by simp_all
  from shrink_not_enforced [OF r lt k, of 4] obtain c' where
    "put 4 4 c = Some c'" "capacity_of c' = capacity_of c"
    "keys_of c' = (if capacity_of c = 0 then keys_of c else insert 4 (keys_of c))"
    "size_of c' = (if capacity_of c = 0 then size_of c else Suc (size_of c))"
    by blast
  then have "put 4 4 c = Some c' \<and> capacity_of c' = 2 \<and> keys_of c' = {1, 2, 3, 4} \<and> size_of c' = 4"
    using c by (simp add: insert_commute)
  with r c show ?thesis by blast
qed

text \<open>
  Claim C1 as stated fails for each of the four policies: a cache of capacity 2 holds
  keys 1 and 2, setCapacity(1) leaves the size 2 above the capacity 1, and the next
  put of the new key 3 evicts nothing: the keys are 1, 2 and 3 and the size 3 is still
  above the capacity 1.
\<close>

theorem shrink_no_eviction:
  "map_option ((\<lambda>c. (capacity_of c, size_of c, keys_of c)) \<circ> snd)
     (run [Put 1 1, Put 2 2, SetCapacity 1, Put 3 3] (construct FILO_policy 2 :: (int, int) cache))
     = Some (1, 3, {1, 2, 3})
   \<and> map_option ((\<lambda>c. (capacity_of c, size_of c, keys_of c)) \<circ> snd)
     (run [Put 1 1, Put 2 2, SetCapacity 1, Put 3 3] (construct FIFO_policy 2 :: (int, int) cache))
     = Some (1, 3, {1, 2, 3})
   \<and> map_option ((\<lambda>c. (capacity_of c, size_of c, keys_of c)) \<circ> snd)
     (run [Put 1 1, Put 2 2, SetCapacity 1, Put 3 3] (construct LRU_policy 2 :: (int, int) cache))
     = Some (1, 3, {1, 2, 3})
   \<and> map_option ((\<lambda>c. (capacity_of c, size_of c, keys_of c)) \<circ> snd)
     (run [Put 1 1, Put 2 2, SetCapacity 1, Put 3 3] (construct LFU_policy 2 :: (int, int) cache))
     = Some (1, 3, {1, 2, 3})"
  by (simp add: cache_ops list_ops insert_commute)

section \<open>The minimal frequency of the LFU cache\<close>

lemma LFU_put_new_minimalFreq:
  assumes "wf_LFU s" "m_capacity s \<noteq> 0" "m_hashmap_LFU s key = None"
  shows "\<exists>s'. LFU_put key val s = Some s' \<and> m_minimalFreq s' = 1"
proof (cases "hashmap_size (m_hashmap_LFU s) = m_capacity s")
  case True
  from LFU_put_new_full [OF assms True, of val] show ?thesis by blast
next
  case False
  from LFU_put_new_room [OF assms False, of val] show ?thesis by blast
qed

text \<open>
  Claim C2, as the code has it. The claim reads: after every sequence of constructor,
  get, put and clear operations, every frequency present in the frequency map has a
  non-empty list, and a non-empty cache has \<open>m_minimalFreq\<close> equal to the smallest
  frequency present. The frequencies are \<open>int\<close>s that every get and every put of a
  stored key increments, so a sequence that accesses one key \<open>INT_MAX\<close> times after
  its insertion overflows, which is undefined. Amended: every sequence of at most
  \<open>INT_MAX\<close> calls of get, put, clear and setCapacity on a constructed LFU cache runs
  to its end, and after every sequence that runs to its end (no frequency overflows)
  every frequency present in the frequency map has a non-empty list, and whenever the
  cache is not empty \<open>m_minimalFreq\<close> is the smallest frequency present in the
  frequency map: it is present and no present frequency is below it. Nothing is said
  of \<open>m_minimalFreq\<close> for an empty cache; in every such state the put of a new key,
  when the capacity is not 0, sets it to 1.
\<close>

theorem LFU_minimalFreq:
  "(int (length calls) \<le> INT_MAX \<longrightarrow>
      (\<exists>rs s. run calls (construct LFU_policy n) = Some (rs, LFU s)))
   \<and> (\<forall>rs c. run calls (construct LFU_policy n) = Some (rs, c) \<longrightarrow>
        (\<exists>s. c = LFU s
           \<and> (\<forall>f l. m_freqHashmap s f = Some l \<longrightarrow> l \<noteq> [])
           \<and> (m_hashmap_LFU s \<noteq> Map.empty \<longrightarrow>
                m_minimalFreq s \<in> dom (m_freqHashmap s)
                \<and> (\<forall>f \<in> dom (m_freqHashmap s). m_minimalFreq s \<le> f))
           \<and> (\<forall>key val. getCapacity s \<noteq> 0 \<and> m_hashmap_LFU s key = None \<longrightarrow>
                (\<exists>s'. LFU_put key val s = Some s' \<and> m_minimalFreq s' = 1))))"
proof -
  have inv: "\<exists>s. c = LFU s
           \<and> (\<forall>f l. m_freqHashmap s f = Some l \<longrightarrow> l \<noteq> [])
           \<and> (m_hashmap_LFU s \<noteq> Map.empty \<longrightarrow>
                m_minimalFreq s \<in> dom (m_freqHashmap s)
                \<and> (\<forall>f \<in> dom (m_freqHashmap s). m_minimalFreq s \<le> f))
           \<and> (\<forall>key val. getCapacity s \<noteq> 0 \<and> m_hashmap_LFU s key = None \<longrightarrow>
                (\<exists>s'. LFU_put key val s = Some s' \<and> m_minimalFreq s' = 1))"
    if r: "run calls (construct LFU_policy n) = Some (rs, c)" for rs and c :: "('a, 'b) cache"
  proof -
    from reachable_wf [OF r] reachable_policy [OF r] obtain s where
      s: "c = LFU s" "wf_LFU s" by (cases c) auto
    from s(2) have wfF: "wfF (m_freqHashmap s) (m_hashmap_LFU s)"
      and mo: "min_ok (m_freqHashmap s) (m_hashmap_LFU s) (m_minimalFreq s)"
      by (auto simp: wf_LFU_def)
    have 1: "\<forall>f l. m_freqHashmap s f = Some l \<longrightarrow> l \<noteq> []" using wfF_bucket [OF wfF] by blast
    have 2: "m_hashmap_LFU s \<noteq> Map.empty \<longrightarrow>
          m_minimalFreq s \<in> dom (m_freqHashmap s)
          \<and> (\<forall>f \<in> dom (m_freqHashmap s). m_minimalFreq s \<le> f)"
      using mo by (simp add: min_ok_def)
    have 3: "\<forall>key val. getCapacity s \<noteq> 0 \<and> m_hashmap_LFU s key = None \<longrightarrow>
          (\<exists>s'. LFU_put key val s = Some s' \<and> m_minimalFreq s' = 1)"
      using LFU_put_new_minimalFreq [OF s(2)] by (simp add: getCapacity_def)
    from s(1) 1 2 3 show ?thesis by blast
  qed
  have def: "\<exists>rs s. run calls (construct LFU_policy n :: ('a, 'b) cache) = Some (rs, LFU s)"
    if "int (length calls) \<le> INT_MAX"
  proof -
    from run_construct_defined [of LFU_policy calls n] that obtain rs and c :: "('a, 'b) cache"
      where r: "run calls (construct LFU_policy n) = Some (rs, c)" by auto
    from inv [OF r] r show ?thesis by blast
  qed
  from inv def show ?thesis by blast
qed

text \<open>An instance: after put(1,1); put(2,2); get(1); put(3,3); get(3) on a cache of
  capacity 2, the keys 1 and 3 both have frequency 2, which is \<open>m_minimalFreq\<close>, and
  the put of the new key 4 sets \<open>m_minimalFreq\<close> to 1.\<close>

theorem LFU_minimalFreq_witness:
  "int (length [Put 1 1, Put 2 2, Get 1, Put 3 3, Get 3 :: (int, int) call]) \<le> INT_MAX
   \<and> (\<exists>s. run [Put 1 1, Put 2 2, Get 1, Put 3 3, Get 3] (construct LFU_policy 2 :: (int, int) cache)
          = Some ([Inr 1, Inr 3], LFU s)
      \<and> m_hashmap_LFU s \<noteq> Map.empty \<and> getCapacity s \<noteq> 0 \<and> m_hashmap_LFU s 4 = None
      \<and> dom (m_freqHashmap s) = {2} \<and> m_minimalFreq s = 2
      \<and> m_minimalFreq s \<in> dom (m_freqHashmap s)
      \<and> (\<exists>s'. LFU_put 4 4 s = Some s' \<and> m_minimalFreq s' = 1))"
proof -
  have len: "int (length [Put 1 1, Put 2 2, Get 1, Put 3 3, Get 3 :: (int, int) call]) \<le> INT_MAX"
    by (simp add: INT_MAX_def)
  have "\<exists>s. run [Put 1 1, Put 2 2, Get 1, Put 3 3, Get 3] (construct LFU_policy 2 :: (int, int) cache)
          = Some ([Inr 1, Inr 3], LFU s)
      \<and> m_hashmap_LFU s \<noteq> Map.empty \<and> getCapacity s \<noteq> 0 \<and> m_hashmap_LFU s 4 = None
      \<and> dom (m_freqHashmap s) = {2} \<and> m_minimalFreq s = 2"
    by (simp add: cache_ops list_ops)
  then obtain s where
    r: "run [Put 1 1, Put 2 2, Get 1, Put 3 3, Get 3] (construct LFU_policy 2 :: (int, int) cache)
          = Some ([Inr 1, Inr 3], LFU s)"
    and s: "m_hashmap_LFU s \<noteq> Map.empty" "getCapacity s \<noteq> 0" "m_hashmap_LFU s 4 = None"
      "dom (m_freqHashmap s) = {2}" "m_minimalFreq s = 2"
    by blast
  from LFU_minimalFreq [of "[Put 1 1, Put 2 2, Get 1, Put 3 3, Get 3] :: (int, int) call list" 2]
  have "\<forall>rs c. run [Put 1 1, Put 2 2, Get 1, Put 3 3, Get 3] (construct LFU_policy 2 :: (int, int) cache)
          = Some (rs, c) \<longrightarrow>
        (\<exists>s. c = LFU s
           \<and> (m_hashmap_LFU s \<noteq> Map.empty \<longrightarrow> m_minimalFreq s \<in> dom (m_freqHashmap s))
           \<and> (\<forall>key val. getCapacity s \<noteq> 0 \<and> m_hashmap_LFU s key = None \<longrightarrow>
                (\<exists>s'. LFU_put key val s = Some s' \<and> m_minimalFreq s' = 1)))"
    by blast
  with r obtain s' where "LFU s = LFU s'"
    and m: "m_hashmap_LFU s' \<noteq> Map.empty \<longrightarrow> m_minimalFreq s' \<in> dom (m_freqHashmap s')"
    and p: "\<forall>key val. getCapacity s' \<noteq> 0 \<and> m_hashmap_LFU s' key = None \<longrightarrow>
          (\<exists>s''. LFU_put key val s' = Some s'' \<and> m_minimalFreq s'' = 1)"
    by blast
  then have "s' = s" by simp
  with m p have "m_minimalFreq s \<in> dom (m_freqHashmap s)"
    "\<exists>s'. LFU_put 4 4 s = Some s' \<and> m_minimalFreq s' = 1"
    using s(1,2,3) by blast+
  with len r s show ?thesis by blast
qed

text \<open>
  Claim C2 as stated fails for a sequence that overflows a frequency: on an LFU cache
  of capacity 1, put(7, 5) and 2147483646 calls of get(7) run to their end, and the
  next get(7), the call number 2147483648 of the sequence, increments the frequency
  \<open>INT_MAX\<close>: the sequence has no defined final state.
\<close>

theorem LFU_frequency_overflow:
  "map_option fst (run (Put 7 5 # replicate 2147483646 (Get 7))
        (construct LFU_policy 1 :: (int, int) cache)) = Some (replicate 2147483646 (Inr 5))
   \<and> run ((Put 7 5 # replicate 2147483646 (Get 7)) @ [Get 7])
        (construct LFU_policy 1 :: (int, int) cache) = None"
proof -
  have r: "run (Put 7 5 # replicate 2147483646 (Get 7)) (construct LFU_policy 1 :: (int, int) cache)
      = Some (replicate 2147483646 (Inr 5), LFU (LFU_single 7 5 INT_MAX))"
    using run_put_gets [of 2147483646 "7::int" "5::int"] by (simp add: INT_MAX_def)
  have "run ((Put 7 5 # replicate 2147483646 (Get 7)) @ [Get 7])
        (construct LFU_policy 1 :: (int, int) cache) = None"
    unfolding run_append [OF r] by (simp add: LFU_single_get_overflow)
  with r show ?thesis by simp
qed

section \<open>The order of the entries\<close>

text \<open>
  Claim C4. On an LRU cache, in every reached state, a successful get moves the entry
  to the front of the list (the most recently used position) and returns its value,
  and the put of a new key into a full cache removes the entry at the back (the least
  recently used one) before it puts the new entry at the front. With capacity 2, the
  calls put(1,1); put(2,2); get(1); put(3,3); get(2); put(4,4); get(1); get(3); get(4)
  give: get(1) returns 1; put(3,3) evicts key 2 (the keys are then 1 and 3), so get(2)
  fails with KeyNotFound; put(4,4) evicts key 1 (the keys are then 3 and 4), so get(1)
  fails with KeyNotFound; get(3) returns 3 and get(4) returns 4.
\<close>

theorem LRU_recency:
  "(run calls (construct LRU_policy n) = Some (rs, LRU s) \<longrightarrow>
      (key \<in> dom (m_hashmap s) \<longrightarrow>
         (\<exists>v s'. map_of (entries s) key = Some v \<and> LRU_get key s = Some (Inr v, s')
            \<and> entries s' = (key, v) # filter (\<lambda>p. fst p \<noteq> key) (entries s)))
      \<and> (key \<notin> dom (m_hashmap s) \<and> getCapacity s \<noteq> 0
           \<and> hashmap_size (m_hashmap s) = getCapacity s \<longrightarrow>
         (\<exists>s'. LRU_put key val s = Some s' \<and> entries s \<noteq> []
            \<and> entries s' = (key, val) # butlast (entries s))))
   \<and> map_option fst
       (run [Put 1 1, Put 2 2, Get 1, Put 3 3, Get 2, Put 4 4, Get 1, Get 3, Get 4]
          (construct LRU_policy 2 :: (int, int) cache))
     = Some [Inr 1, Inl KeyNotFound, Inl KeyNotFound, Inr 3, Inr 4]
   \<and> map_option (keys_of \<circ> snd)
       (run [Put 1 1, Put 2 2, Get 1, Put 3 3] (construct LRU_policy 2 :: (int, int) cache))
     = Some {1, 3}
   \<and> map_option (keys_of \<circ> snd)
       (run [Put 1 1, Put 2 2, Get 1, Put 3 3, Get 2, Put 4 4]
          (construct LRU_policy 2 :: (int, int) cache))
     = Some {3, 4}"
proof -
  have 1: "\<exists>v s'. map_of (entries s) key = Some v \<and> LRU_get key s = Some (Inr v, s')
            \<and> entries s' = (key, v) # filter (\<lambda>p. fst p \<noteq> key) (entries s)"
    if r: "run calls (construct LRU_policy n) = Some (rs, LRU s)" and k: "key \<in> dom (m_hashmap s)"
  proof -
    have wf: "wf_List s" using reachable_wf [OF r] by simp
    from k obtain it where "m_hashmap s key = Some it" by auto
    from LRU_get_present [OF wf this] show ?thesis by blast
  qed
  have 2: "\<exists>s'. LRU_put key val s = Some s' \<and> entries s \<noteq> []
            \<and> entries s' = (key, val) # butlast (entries s)"
    if r: "run calls (construct LRU_policy n) = Some (rs, LRU s)" and k: "key \<notin> dom (m_hashmap s)"
      and c: "getCapacity s \<noteq> 0" "hashmap_size (m_hashmap s) = getCapacity s"
  proof -
    have wf: "wf_List s" using reachable_wf [OF r] by simp
    from k have "m_hashmap s key = None" by auto
    from LRU_put_new_full [OF wf _ this, of val] c show ?thesis by (auto simp: getCapacity_def)
  qed
  have 3: "map_option fst
       (run [Put 1 1, Put 2 2, Get 1, Put 3 3, Get 2, Put 4 4, Get 1, Get 3, Get 4]
          (construct LRU_policy 2 :: (int, int) cache))
     = Some [Inr 1, Inl KeyNotFound, Inl KeyNotFound, Inr 3, Inr 4]"
    by (simp add: cache_ops list_ops)
  have 4: "map_option (keys_of \<circ> snd)
       (run [Put 1 1, Put 2 2, Get 1, Put 3 3] (construct LRU_policy 2 :: (int, int) cache))
     = Some {1, 3}"
    by (simp add: cache_ops list_ops insert_commute)
  have 5: "map_option (keys_of \<circ> snd)
       (run [Put 1 1, Put 2 2, Get 1, Put 3 3, Get 2, Put 4 4]
          (construct LRU_policy 2 :: (int, int) cache))
     = Some {3, 4}"
    by (simp add: cache_ops list_ops insert_commute)
  from 1 2 3 4 5 show ?thesis by blast
qed

text \<open>An instance: a full LRU cache with the entries (2, 20), (1, 10): get(1) moves
  key 1 to the front, put(3, 30) removes the back entry, key 1.\<close>

theorem LRU_recency_witness:
  "\<exists>s. run [Put 1 10, Put 2 20] (construct LRU_policy 2 :: (int, int) cache) = Some ([], LRU s)
      \<and> entries s = [(2, 20), (1, 10)] \<and> dom (m_hashmap s) = {1, 2} \<and> getCapacity s = 2
      \<and> hashmap_size (m_hashmap s) = 2
      \<and> (\<exists>s'. LRU_get 1 s = Some (Inr 10, s') \<and> entries s' = [(1, 10), (2, 20)])
      \<and> (\<exists>s'. LRU_put 3 30 s = Some s' \<and> entries s' = [(3, 30), (2, 20)])"
proof -
  have "\<exists>s. run [Put 1 10, Put 2 20] (construct LRU_policy 2 :: (int, int) cache) = Some ([], LRU s)
      \<and> entries s = [(2, 20), (1, 10)] \<and> dom (m_hashmap s) = {1, 2} \<and> getCapacity s = 2
      \<and> hashmap_size (m_hashmap s) = 2"
    by (simp add: cache_ops list_ops entries_def insert_commute)
  then obtain s where
    r: "run [Put 1 10, Put 2 20] (construct LRU_policy 2 :: (int, int) cache) = Some ([], LRU s)"
    and s: "entries s = [(2, 20), (1, 10)]" "dom (m_hashmap s) = {1, 2}" "getCapacity s = 2"
       "hashmap_size (m_hashmap s) = 2"
    by blast
  from LRU_recency [of "[Put 1 10, Put 2 20]" 2 "[]" s 1] r s
  have "\<exists>v s'. map_of (entries s) 1 = Some v \<and> LRU_get 1 s = Some (Inr v, s')
            \<and> entries s' = (1, v) # filter (\<lambda>p. fst p \<noteq> 1) (entries s)"
    by simp
  then have a: "\<exists>s'. LRU_get 1 s = Some (Inr 10, s') \<and> entries s' = [(1, 10), (2, 20)]"
    using s(1) by auto
  from LRU_recency [of "[Put 1 10, Put 2 20]" 2 "[]" s 3 30] r s
  have "\<exists>s'. LRU_put 3 30 s = Some s' \<and> entries s \<noteq> []
            \<and> entries s' = (3, 30) # butlast (entries s)"
    by simp
  then have b: "\<exists>s'. LRU_put 3 30 s = Some s' \<and> entries s' = [(3, 30), (2, 20)]"
    using s(1) by auto
  from r s a b show ?thesis by blast
qed

text \<open>
  Claim C5. On a FILO cache, in every reached state, put(key, value) changes nothing
  when the capacity is 0; when the key exists it overwrites the value in place and the
  order of the keys stays as it was; and when the key is new and the cache is at
  capacity it removes the entry at the tail of the list (the most recently inserted
  one) and then appends the new entry at the tail.
\<close>

theorem FILO_put_behaviour:
  assumes "run calls (construct FILO_policy n) = Some (rs, FILO s)"
  shows "(getCapacity s = 0 \<longrightarrow> FILO_put key val s = Some s)
     \<and> (getCapacity s \<noteq> 0 \<and> key \<in> dom (m_hashmap s) \<longrightarrow>
          (\<exists>s'. FILO_put key val s = Some s'
             \<and> entries s' = map (\<lambda>p. if fst p = key then (fst p, val) else p) (entries s)
             \<and> map fst (entries s') = map fst (entries s)))
     \<and> (getCapacity s \<noteq> 0 \<and> key \<notin> dom (m_hashmap s)
          \<and> hashmap_size (m_hashmap s) = getCapacity s \<longrightarrow>
          (\<exists>s'. FILO_put key val s = Some s' \<and> entries s \<noteq> []
             \<and> entries s' = butlast (entries s) @ [(key, val)]))"
proof -
  have wf: "wf_List s" using reachable_wf [OF assms] by simp
  have 1: "FILO_put key val s = Some s" if "getCapacity s = 0"
    using that by (simp add: FILO_put_zero getCapacity_def)
  have 2: "\<exists>s'. FILO_put key val s = Some s'
             \<and> entries s' = map (\<lambda>p. if fst p = key then (fst p, val) else p) (entries s)
             \<and> map fst (entries s') = map fst (entries s)"
    if c: "getCapacity s \<noteq> 0" and k: "key \<in> dom (m_hashmap s)"
  proof -
    from k obtain it where "m_hashmap s key = Some it" by auto
    from FILO_put_existing [OF wf _ this, of val] c obtain s' where
      s': "FILO_put key val s = Some s'"
        "entries s' = map (\<lambda>p. if fst p = key then (fst p, val) else p) (entries s)"
      by (auto simp: getCapacity_def)
    have "map fst (entries s') = map fst (entries s)" unfolding s'(2) by (rule map_fst_overwrite)
    with s' show ?thesis by blast
  qed
  have 3: "\<exists>s'. FILO_put key val s = Some s' \<and> entries s \<noteq> []
             \<and> entries s' = butlast (entries s) @ [(key, val)]"
    if c: "getCapacity s \<noteq> 0" "hashmap_size (m_hashmap s) = getCapacity s"
      and k: "key \<notin> dom (m_hashmap s)"
  proof -
    from k have "m_hashmap s key = None" by auto
    from FILO_put_new_full [OF wf _ this, of val] c show ?thesis by (auto simp: getCapacity_def)
  qed
  from 1 2 3 show ?thesis by blast
qed

text \<open>Instances: a FILO cache of capacity 0, and a full FILO cache with the entries
  (1, 10), (2, 20), where put(1, 11) overwrites in place and put(3, 30) replaces the
  tail entry, key 2.\<close>

theorem FILO_put_behaviour_witness:
  "FILO_put (1::int) (1::int) (FILOCache 0) = Some (FILOCache 0)
   \<and> (\<exists>s. run [Put 1 10, Put 2 20] (construct FILO_policy 2 :: (int, int) cache) = Some ([], FILO s)
        \<and> entries s = [(1, 10), (2, 20)] \<and> dom (m_hashmap s) = {1, 2} \<and> getCapacity s = 2
        \<and> hashmap_size (m_hashmap s) = 2
        \<and> (\<exists>s'. FILO_put 1 11 s = Some s' \<and> entries s' = [(1, 11), (2, 20)])
        \<and> (\<exists>s'. FILO_put 3 30 s = Some s' \<and> entries s' = [(1, 10), (3, 30)]))"
proof -
  have r0: "run [] (construct FILO_policy 0 :: (int, int) cache) = Some ([], FILO (FILOCache 0))"
    by simp
  have "getCapacity (FILOCache 0 :: (int, int) ListCache) = 0" by (simp add: cache_ops)
  with FILO_put_behaviour [OF r0, of 1 1]
  have z: "FILO_put (1::int) (1::int) (FILOCache 0) = Some (FILOCache 0)" by blast
  have "\<exists>s. run [Put 1 10, Put 2 20] (construct FILO_policy 2 :: (int, int) cache) = Some ([], FILO s)
      \<and> entries s = [(1, 10), (2, 20)] \<and> dom (m_hashmap s) = {1, 2} \<and> getCapacity s = 2
      \<and> hashmap_size (m_hashmap s) = 2"
    by (simp add: cache_ops list_ops entries_def insert_commute)
  then obtain s where
    r: "run [Put 1 10, Put 2 20] (construct FILO_policy 2 :: (int, int) cache) = Some ([], FILO s)"
    and s: "entries s = [(1, 10), (2, 20)]" "dom (m_hashmap s) = {1, 2}" "getCapacity s = 2"
       "hashmap_size (m_hashmap s) = 2"
    by blast
  from FILO_put_behaviour [OF r, of 1 11] s
  have "\<exists>s'. FILO_put 1 11 s = Some s'
             \<and> entries s' = map (\<lambda>p. if fst p = 1 then (fst p, 11) else p) (entries s)"
    by auto
  then have a: "\<exists>s'. FILO_put 1 11 s = Some s' \<and> entries s' = [(1, 11), (2, 20)]"
    using s(1) by auto
  from FILO_put_behaviour [OF r, of 3 30] s
  have "\<exists>s'. FILO_put 3 30 s = Some s' \<and> entries s \<noteq> []
             \<and> entries s' = butlast (entries s) @ [(3, 30)]"
    by simp
  then have b: "\<exists>s'. FILO_put 3 30 s = Some s' \<and> entries s' = [(1, 10), (3, 30)]"
    using s(1) by auto
  from z r s a b show ?thesis by blast
qed

text \<open>
  Claim C6. On a FIFO cache, in every reached state, put on an existing key overwrites
  the value in place and the order of the keys stays as it was, and the put of a new
  key into a cache at capacity removes the entry at the head of the list (the oldest
  by insertion) and appends the new entry at the tail. With capacity 3, the calls
  put(1,1); put(2,2); put(1,15); get(1); put(3,3); put(4,4); get(1); get(2) give:
  get(1) returns 15; put(4,4) evicts key 1 (the keys are then 2, 3 and 4), so get(1)
  fails with KeyNotFound; get(2) returns 2.
\<close>

theorem FIFO_put_behaviour:
  "(run calls (construct FIFO_policy n) = Some (rs, FIFO s) \<longrightarrow>
      (getCapacity s \<noteq> 0 \<and> key \<in> dom (m_hashmap s) \<longrightarrow>
          (\<exists>s'. FIFO_put key val s = Some s'
             \<and> entries s' = map (\<lambda>p. if fst p = key then (fst p, val) else p) (entries s)
             \<and> map fst (entries s') = map fst (entries s)))
      \<and> (getCapacity s \<noteq> 0 \<and> key \<notin> dom (m_hashmap s)
          \<and> hashmap_size (m_hashmap s) = getCapacity s \<longrightarrow>
          (\<exists>s'. FIFO_put key val s = Some s' \<and> entries s \<noteq> []
             \<and> entries s' = tl (entries s) @ [(key, val)])))
   \<and> map_option fst
       (run [Put 1 1, Put 2 2, Put 1 15, Get 1, Put 3 3, Put 4 4, Get 1, Get 2]
          (construct FIFO_policy 3 :: (int, int) cache))
     = Some [Inr 15, Inl KeyNotFound, Inr 2]
   \<and> map_option (keys_of \<circ> snd)
       (run [Put 1 1, Put 2 2, Put 1 15, Get 1, Put 3 3, Put 4 4]
          (construct FIFO_policy 3 :: (int, int) cache))
     = Some {2, 3, 4}"
proof -
  have 2: "\<exists>s'. FIFO_put key val s = Some s'
             \<and> entries s' = map (\<lambda>p. if fst p = key then (fst p, val) else p) (entries s)
             \<and> map fst (entries s') = map fst (entries s)"
    if r: "run calls (construct FIFO_policy n) = Some (rs, FIFO s)"
      and c: "getCapacity s \<noteq> 0" and k: "key \<in> dom (m_hashmap s)"
  proof -
    have wf: "wf_List s" using reachable_wf [OF r] by simp
    from k obtain it where "m_hashmap s key = Some it" by auto
    from FIFO_put_existing [OF wf _ this, of val] c obtain s' where
      s': "FIFO_put key val s = Some s'"
        "entries s' = map (\<lambda>p. if fst p = key then (fst p, val) else p) (entries s)"
      by (auto simp: getCapacity_def)
    have "map fst (entries s') = map fst (entries s)" unfolding s'(2) by (rule map_fst_overwrite)
    with s' show ?thesis by blast
  qed
  have 3: "\<exists>s'. FIFO_put key val s = Some s' \<and> entries s \<noteq> []
             \<and> entries s' = tl (entries s) @ [(key, val)]"
    if r: "run calls (construct FIFO_policy n) = Some (rs, FIFO s)"
      and c: "getCapacity s \<noteq> 0" "hashmap_size (m_hashmap s) = getCapacity s"
      and k: "key \<notin> dom (m_hashmap s)"
  proof -
    have wf: "wf_List s" using reachable_wf [OF r] by simp
    from k have "m_hashmap s key = None" by auto
    from FIFO_put_new_full [OF wf _ this, of val] c show ?thesis by (auto simp: getCapacity_def)
  qed
  have 4: "map_option fst
       (run [Put 1 1, Put 2 2, Put 1 15, Get 1, Put 3 3, Put 4 4, Get 1, Get 2]
          (construct FIFO_policy 3 :: (int, int) cache))
     = Some [Inr 15, Inl KeyNotFound, Inr 2]"
    by (simp add: cache_ops list_ops)
  have 5: "map_option (keys_of \<circ> snd)
       (run [Put 1 1, Put 2 2, Put 1 15, Get 1, Put 3 3, Put 4 4]
          (construct FIFO_policy 3 :: (int, int) cache))
     = Some {2, 3, 4}"
    by (simp add: cache_ops list_ops insert_commute)
  from 2 3 4 5 show ?thesis by blast
qed

text \<open>An instance: a full FIFO cache with the entries (1, 10), (2, 20), where
  put(1, 11) overwrites in place and put(3, 30) removes the head entry, key 1.\<close>

theorem FIFO_put_behaviour_witness:
  "\<exists>s. run [Put 1 10, Put 2 20] (construct FIFO_policy 2 :: (int, int) cache) = Some ([], FIFO s)
        \<and> entries s = [(1, 10), (2, 20)] \<and> dom (m_hashmap s) = {1, 2} \<and> getCapacity s = 2
        \<and> hashmap_size (m_hashmap s) = 2
        \<and> (\<exists>s'. FIFO_put 1 11 s = Some s' \<and> entries s' = [(1, 11), (2, 20)])
        \<and> (\<exists>s'. FIFO_put 3 30 s = Some s' \<and> entries s' = [(2, 20), (3, 30)])"
proof -
  have "\<exists>s. run [Put 1 10, Put 2 20] (construct FIFO_policy 2 :: (int, int) cache) = Some ([], FIFO s)
      \<and> entries s = [(1, 10), (2, 20)] \<and> dom (m_hashmap s) = {1, 2} \<and> getCapacity s = 2
      \<and> hashmap_size (m_hashmap s) = 2"
    by (simp add: cache_ops list_ops entries_def insert_commute)
  then obtain s where
    r: "run [Put 1 10, Put 2 20] (construct FIFO_policy 2 :: (int, int) cache) = Some ([], FIFO s)"
    and s: "entries s = [(1, 10), (2, 20)]" "dom (m_hashmap s) = {1, 2}" "getCapacity s = 2"
       "hashmap_size (m_hashmap s) = 2"
    by blast
  from FIFO_put_behaviour [of "[Put 1 10, Put 2 20]" 2 "[]" s 1 11] r s
  have "\<exists>s'. FIFO_put 1 11 s = Some s'
             \<and> entries s' = map (\<lambda>p. if fst p = 1 then (fst p, 11) else p) (entries s)"
    by auto
  then have a: "\<exists>s'. FIFO_put 1 11 s = Some s' \<and> entries s' = [(1, 11), (2, 20)]"
    using s(1) by auto
  from FIFO_put_behaviour [of "[Put 1 10, Put 2 20]" 2 "[]" s 3 30] r s
  have "\<exists>s'. FIFO_put 3 30 s = Some s' \<and> entries s \<noteq> []
             \<and> entries s' = tl (entries s) @ [(3, 30)]"
    by simp
  then have b: "\<exists>s'. FIFO_put 3 30 s = Some s' \<and> entries s' = [(2, 20), (3, 30)]"
    using s(1) by auto
  from r s a b show ?thesis by blast
qed

end
